theory Spec2Isabelle
  imports Complex_Main "HOL-Library.Multiset"
begin

section \<open>Conventions of the embedding\<close>

text \<open>
  The two source files are \<^verbatim>\<open>src/src/sasa_lr.c\<close> (the Lee and Richards slice
  integrator) and \<^verbatim>\<open>src/src/nb.c\<close> (the cell-list neighbour index).

  \<^item> A C \<^verbatim>\<open>double\<close> is a \<^typ>\<open>real\<close>: arithmetic is exact, \<^verbatim>\<open>PI\<close> is \<^term>\<open>pi\<close>.
    The one place where the C program produces a value that is no real number (the
    quotient inside \<^verbatim>\<open>acos\<close> when the divisor is zero, or an argument outside
    \<open>[-1, 1]\<close>) is modelled by \<^typ>\<open>real option\<close>, \<^term>\<open>None\<close> standing for NaN.
  \<^item> A C \<^verbatim>\<open>int\<close>/\<^verbatim>\<open>size_t\<close> used as an index or a count is a \<^typ>\<open>nat\<close> or an
    \<^typ>\<open>int\<close> without wrap-around.
  \<^item> An array together with the count of its written entries is the list of the
    written entries; \<^verbatim>\<open>p = realloc(p, n); p[n-1] = v\<close> and \<^verbatim>\<open>x[n] = v; ++n\<close> are
    an append.
  \<^item> \<^verbatim>\<open>assert\<close> is active: a failed assertion is the result \<open>Inl AssertionFailed\<close>.
\<close>

datatype error = AssertionFailed

text \<open>
  Modelled from the spec: the coordinate container (\<^verbatim>\<open>sasalib_coord_t\<close>,
  \<^verbatim>\<open>freesasa_coord\<close>) is declared outside the two source files. The spec describes it
  as an N-atom XYZ buffer with a count and a flat array of \<open>3N\<close> doubles; entry \<open>i\<close> of the
  list below holds \<^verbatim>\<open>v[3*i], v[3*i+1], v[3*i+2]\<close>.
\<close>

type_synonym coord = "(real \<times> real \<times> real) list"

definition coord_n :: "coord \<Rightarrow> nat" where
  "coord_n xyz = length xyz"

definition coord_x :: "coord \<Rightarrow> nat \<Rightarrow> real" where
  "coord_x v i = fst (v ! i)"

definition coord_y :: "coord \<Rightarrow> nat \<Rightarrow> real" where
  "coord_y v i = fst (snd (v ! i))"

definition coord_z :: "coord \<Rightarrow> nat \<Rightarrow> real" where
  "coord_z v i = snd (snd (v ! i))"

section \<open>The slice integrator: \<^verbatim>\<open>sasa_lr.c\<close>\<close>

subsection \<open>Calculation parameters\<close>

text \<open>The struct \<^verbatim>\<open>sasa_lr_t\<close>. Row \<open>i\<close> of \<open>lr_nb\<close> is the array \<^verbatim>\<open>nb[i]\<close> of
  \<^verbatim>\<open>nn[i]\<close> entries.\<close>

record sasa_lr_t =
  lr_n_atoms :: nat
  lr_radii :: "real list"
  lr_xyz :: coord
  lr_nb :: "nat list list"
  lr_nn :: "nat list"
  lr_delta :: real
  lr_min_z :: real
  lr_max_z :: real
  lr_sasa :: "real list"

subsection \<open>\<^verbatim>\<open>sasa_add_slice_area\<close>, first loop: the atoms of a slice\<close>

text \<open>The local arrays of \<^verbatim>\<open>sasa_add_slice_area\<close>. \<open>sl_x\<close>, \<open>sl_y\<close>, \<open>sl_r\<close>, \<open>sl_DR\<close> and
  \<open>sl_idx\<close> hold the \<open>sl_n_slice\<close> entries written so far. \<^verbatim>\<open>xdi\<close> is written for the
  atoms of the slice only, so it is a partial map.\<close>

record slice_t =
  sl_x :: "real list"
  sl_y :: "real list"
  sl_r :: "real list"
  sl_DR :: "real list"
  sl_idx :: "nat list"
  sl_xdi :: "nat \<rightharpoonup> nat"
  sl_in_slice :: "bool list"
  sl_n_slice :: nat

definition slice_empty :: "nat \<Rightarrow> slice_t" where
  "slice_empty n_atoms =
     \<lparr>sl_x = [], sl_y = [], sl_r = [], sl_DR = [], sl_idx = [], sl_xdi = Map.empty,
      sl_in_slice = replicate n_atoms False, sl_n_slice = 0\<rparr>"

text \<open>One iteration of the loop of lines 223 to 239.\<close>

definition locate_step :: "real \<Rightarrow> sasa_lr_t \<Rightarrow> nat \<Rightarrow> slice_t \<Rightarrow> slice_t" where
  "locate_step z lr i s =
     (let v = lr_xyz lr;
          delta = lr_delta lr;
          ri = lr_radii lr ! i;
          d = \<bar>coord_z v i - z\<bar>
      in if d < ri then
           (let r = sqrt (ri * ri - d * d) in
            s\<lparr>sl_x := sl_x s @ [coord_x v i],
              sl_y := sl_y s @ [coord_y v i],
              sl_r := sl_r s @ [r],
              sl_DR := sl_DR s @
                 [ri / r * (delta / 2 + (if delta / 2 < ri - d then delta / 2 else ri - d))],
              sl_idx := sl_idx s @ [i],
              sl_xdi := (sl_xdi s)(i \<mapsto> sl_n_slice s),
              sl_n_slice := sl_n_slice s + 1,
              sl_in_slice := (sl_in_slice s)[i := True]\<rparr>)
         else s\<lparr>sl_in_slice := (sl_in_slice s)[i := False]\<rparr>)"

definition locate_atoms :: "real \<Rightarrow> sasa_lr_t \<Rightarrow> slice_t" where
  "locate_atoms z lr =
     fold (locate_step z lr) [0..<lr_n_atoms lr] (slice_empty (lr_n_atoms lr))"

text \<open>The test that admits atom \<open>i\<close> to the slice at \<open>z\<close>, and the two values stored
  for it, as functions of the atom (used to state what the loop computes).\<close>

definition in_slice_test :: "real \<Rightarrow> sasa_lr_t \<Rightarrow> nat \<Rightarrow> bool" where
  "in_slice_test z lr i \<longleftrightarrow> \<bar>coord_z (lr_xyz lr) i - z\<bar> < lr_radii lr ! i"

definition slice_radius :: "real \<Rightarrow> sasa_lr_t \<Rightarrow> nat \<Rightarrow> real" where
  "slice_radius z lr i =
     sqrt (lr_radii lr ! i * lr_radii lr ! i
           - \<bar>coord_z (lr_xyz lr) i - z\<bar> * \<bar>coord_z (lr_xyz lr) i - z\<bar>)"

definition slice_DR :: "real \<Rightarrow> sasa_lr_t \<Rightarrow> nat \<Rightarrow> real" where
  "slice_DR z lr i =
     lr_radii lr ! i / slice_radius z lr i *
       (lr_delta lr / 2 +
        (if lr_delta lr / 2 < lr_radii lr ! i - \<bar>coord_z (lr_xyz lr) i - z\<bar>
         then lr_delta lr / 2 else lr_radii lr ! i - \<bar>coord_z (lr_xyz lr) i - z\<bar>))"

subsection \<open>\<^verbatim>\<open>sasa_sum_angles\<close>: the union of arcs on the circle\<close>

text \<open>The loop \<^verbatim>\<open>for (;;)\<close> of lines 358 to 363 moves \<open>bj\<close> by multiples of \<open>2 * PI\<close> until
  \<open>d = bj - bi\<close> lies in \<open>[-PI, PI]\<close>; it returns the final \<open>bj\<close> (and \<open>d\<close> is \<open>bj - bi\<close>).\<close>

lemma ceil_step: "1 < (x::real) \<Longrightarrow> \<lceil>\<bar>x - 2\<bar>\<rceil> < \<lceil>x\<rceil>"
proof (cases "2 \<le> x")
  case True
  assume "1 < x"
  have "\<bar>x - 2\<bar> = x - 2" using True by simp
  moreover have "\<lceil>x - 2\<rceil> = \<lceil>x\<rceil> - 2" by (metis ceiling_diff_numeral)
  ultimately show ?thesis by simp
next
  case False
  assume x1: "1 < x"
  have "\<bar>x - 2\<bar> \<le> 1" using False x1 by simp
  then have "\<lceil>\<bar>x - 2\<bar>\<rceil> \<le> 1" by (simp add: ceiling_le_iff)
  moreover have "2 \<le> \<lceil>x\<rceil>" using x1 by (simp add: le_ceiling_iff)
  ultimately show ?thesis by linarith
qed

function norm_bj :: "real \<Rightarrow> real \<Rightarrow> real" where
  "norm_bj bi bj =
     (if bj - bi > pi then norm_bj bi (bj - 2 * pi)
      else if bj - bi < - pi then norm_bj bi (bj + 2 * pi)
      else bj)"
  by pat_completeness auto
termination
proof (relation "measure (\<lambda>(bi, bj). nat \<lceil>\<bar>bj - bi\<bar> / pi\<rceil>)")
  show "wf (measure (\<lambda>(bi, bj). nat \<lceil>\<bar>bj - bi\<bar> / pi\<rceil>))" by simp
next
  fix bi bj :: real
  assume gt: "pi < bj - bi"
  define x where "x = (bj - bi) / pi"
  have x1: "1 < x" using gt pi_gt_zero by (simp add: x_def)
  have "bj - 2 * pi - bi = pi * (x - 2)" using pi_gt_zero by (simp add: x_def field_simps)
  then have eq: "\<bar>bj - 2 * pi - bi\<bar> / pi = \<bar>x - 2\<bar>"
    using pi_gt_zero by (simp add: abs_mult)
  have "0 < bj - bi" using gt pi_gt_zero by linarith
  then have eq2: "\<bar>bj - bi\<bar> / pi = x" by (simp add: x_def)
  have "\<lceil>\<bar>x - 2\<bar>\<rceil> < \<lceil>x\<rceil>" using x1 by (rule ceil_step)
  moreover have "0 < \<lceil>x\<rceil>" using x1 by (simp add: less_ceiling_iff)
  ultimately show "((bi, bj - 2 * pi), (bi, bj)) \<in> measure (\<lambda>(bi, bj). nat \<lceil>\<bar>bj - bi\<bar> / pi\<rceil>)"
    by (simp add: eq eq2)
next
  fix bi bj :: real
  assume "\<not> pi < bj - bi" and lt: "bj - bi < - pi"
  define x where "x = (bi - bj) / pi"
  have x1: "1 < x" using lt pi_gt_zero by (simp add: x_def field_simps)
  have "bj + 2 * pi - bi = - (pi * (x - 2))" using pi_gt_zero by (simp add: x_def field_simps)
  then have eq: "\<bar>bj + 2 * pi - bi\<bar> / pi = \<bar>x - 2\<bar>"
    using pi_gt_zero by (simp add: abs_mult)
  have "bj - bi = - (pi * x)" using pi_gt_zero by (simp add: x_def field_simps)
  then have eq2: "\<bar>bj - bi\<bar> / pi = x" using x1 pi_gt_zero by (simp add: abs_mult)
  have "\<lceil>\<bar>x - 2\<bar>\<rceil> < \<lceil>x\<rceil>" using x1 by (rule ceil_step)
  moreover have "0 < \<lceil>x\<rceil>" using x1 by (simp add: less_ceiling_iff)
  ultimately show "((bi, bj + 2 * pi), (bi, bj)) \<in> measure (\<lambda>(bi, bj). nat \<lceil>\<bar>bj - bi\<bar> / pi\<rceil>)"
    by (simp add: eq eq2)
qed

declare norm_bj.simps [simp del]

text \<open>The local state of one call of \<^verbatim>\<open>sasa_sum_angles\<close>: the arrays \<open>a\<close> and \<open>b\<close>
  (updated in place), \<open>excluded\<close>, and the counters \<open>n_exc\<close> and \<open>n_overlap\<close>.\<close>

record merge_t =
  ms_a :: "real list"
  ms_b :: "real list"
  ms_excluded :: "bool list"
  ms_n_exc :: nat
  ms_n_overlap :: nat

text \<open>The body of the inner loop from line 355 on, for a pair \<open>i \<noteq> j\<close> of intervals that are
  not excluded: the overlap test, and the merge of interval \<open>j\<close> into interval \<open>i\<close>
  (lines 365 to 379). \<open>ReturnZero\<close> is the \<^verbatim>\<open>return 0\<close> of line 374.\<close>

datatype merge_outcome = NoOverlap | ReturnZero | Merged merge_t

definition merge_pair :: "nat \<Rightarrow> nat \<Rightarrow> merge_t \<Rightarrow> merge_outcome" where
  "merge_pair i j s =
     (let bi = ms_b s ! i; ai = ms_a s ! i;
          aj = ms_a s ! j;
          bj = norm_bj bi (ms_b s ! j);
          d = bj - bi
      in if \<bar>d\<bar> > ai + aj then NoOverlap
         else
           (let inf_i = bi - ai; inf_j = bj - aj;
                sup_i = bi + ai; sup_j = bj + aj;
                inf = (if inf_i < inf_j then inf_i else inf_j);
                sup = (if sup_i > sup_j then sup_i else sup_j);
                b_i = (inf + sup) / 2;
                a_i = (sup - inf) / 2
            in if a_i > pi then ReturnZero
               else
                 (let b_i1 = (if b_i > pi then b_i - 2 * pi else b_i);
                      b_i2 = (if b_i1 < - pi then b_i1 + 2 * pi else b_i1)
                  in Merged (s\<lparr>ms_b := (ms_b s)[i := b_i2],
                                ms_a := (ms_a s)[i := a_i, j := 0],
                                ms_excluded := (ms_excluded s)[j := True],
                                ms_n_overlap := ms_n_overlap s + 1\<rparr>))))"

text \<open>The inner loop over \<open>j\<close> (lines 350 to 381) for a fixed \<open>i\<close>, run over the indices
  \<open>js\<close> still to visit. \<^term>\<open>None\<close> is the \<^verbatim>\<open>return 0\<close>; the \<^verbatim>\<open>break\<close> of line 380 ends the
  loop with the current state.\<close>

fun merge_inner :: "nat \<Rightarrow> nat \<Rightarrow> nat list \<Rightarrow> merge_t \<Rightarrow> merge_t option" where
  "merge_inner n_buried i [] s = Some s"
| "merge_inner n_buried i (j # js) s =
     (if ms_excluded s ! j then merge_inner n_buried i js s
      else if i = j then merge_inner n_buried i js s
      else
        (case merge_pair i j s of
           NoOverlap \<Rightarrow> merge_inner n_buried i js s
         | ReturnZero \<Rightarrow> None
         | Merged s1 \<Rightarrow>
             if int (ms_n_exc s1 + 1) = int n_buried - 1
             then Some (s1\<lparr>ms_n_exc := ms_n_exc s1 + 1\<rparr>)
             else merge_inner n_buried i js (s1\<lparr>ms_n_exc := ms_n_exc s1 + 1\<rparr>)))"

text \<open>The outer loop over \<open>i\<close> (lines 348 to 383).\<close>

fun merge_outer :: "nat \<Rightarrow> nat list \<Rightarrow> merge_t \<Rightarrow> merge_t option" where
  "merge_outer n_buried [] s = Some s"
| "merge_outer n_buried (i # is) s =
     (if ms_excluded s ! i then merge_outer n_buried is s
      else
        (case merge_inner n_buried i [0..<n_buried] s of
           None \<Rightarrow> None
         | Some s' \<Rightarrow>
             if int (ms_n_exc s') = int n_buried - 1 then Some s'
             else merge_outer n_buried is s'))"

definition merge_init :: "real list \<Rightarrow> real list \<Rightarrow> merge_t" where
  "merge_init a b =
     \<lparr>ms_a = a, ms_b = b, ms_excluded = replicate (length a) False,
      ms_n_exc = 0, ms_n_overlap = 0\<rparr>"

definition merge_pass :: "real list \<Rightarrow> real list \<Rightarrow> merge_t option" where
  "merge_pass a b = merge_outer (length a) [0..<length a] (merge_init a b)"

text \<open>The copy of the intervals that are not excluded (lines 387 to 395).\<close>

definition compact :: "bool list \<Rightarrow> real list \<Rightarrow> real list" where
  "compact excluded a = map (\<lambda>i. a ! i) (filter (\<lambda>i. \<not> excluded ! i) [0..<length excluded])"


lemma length_filter_not_nth:
  "length (filter (\<lambda>i. \<not> xs ! i) [0..<length xs]) = length xs - length (filter id xs)"
proof -
  have "map (\<lambda>i. xs ! i) (filter (\<lambda>i. \<not> xs ! i) [0..<length xs])
          = filter (\<lambda>x. \<not> x) (map (\<lambda>i. xs ! i) [0..<length xs])"
    by (simp add: filter_map comp_def)
  also have "\<dots> = filter (\<lambda>x. \<not> x) xs" by (simp add: map_nth)
  finally have "length (filter (\<lambda>i. \<not> xs ! i) [0..<length xs]) = length (filter (\<lambda>x. \<not> x) xs)"
    by (metis length_map)
  moreover have "length (filter id xs) + length (filter (\<lambda>x. \<not> x) xs) = length xs"
    using sum_length_filter_compl [of id xs] by simp
  ultimately show ?thesis by simp
qed

lemma length_compact:
  "length (compact excluded a) = length excluded - length (filter id excluded)"
  by (simp add: compact_def length_filter_not_nth)

text \<open>The merged interval written to position \<open>i\<close> by lines 368 to 376, as functions of
  the state.\<close>

definition merged_inf :: "merge_t \<Rightarrow> nat \<Rightarrow> nat \<Rightarrow> real" where
  "merged_inf s i j =
     (if ms_b s ! i - ms_a s ! i < norm_bj (ms_b s ! i) (ms_b s ! j) - ms_a s ! j
      then ms_b s ! i - ms_a s ! i else norm_bj (ms_b s ! i) (ms_b s ! j) - ms_a s ! j)"

definition merged_sup :: "merge_t \<Rightarrow> nat \<Rightarrow> nat \<Rightarrow> real" where
  "merged_sup s i j =
     (if ms_b s ! i + ms_a s ! i > norm_bj (ms_b s ! i) (ms_b s ! j) + ms_a s ! j
      then ms_b s ! i + ms_a s ! i else norm_bj (ms_b s ! i) (ms_b s ! j) + ms_a s ! j)"

definition merged_a :: "merge_t \<Rightarrow> nat \<Rightarrow> nat \<Rightarrow> real" where
  "merged_a s i j = (merged_sup s i j - merged_inf s i j) / 2"

definition wrap_b :: "real \<Rightarrow> real" where
  "wrap_b x = (if (if x > pi then x - 2 * pi else x) < - pi
               then (if x > pi then x - 2 * pi else x) + 2 * pi
               else (if x > pi then x - 2 * pi else x))"

definition merged_b :: "merge_t \<Rightarrow> nat \<Rightarrow> nat \<Rightarrow> real" where
  "merged_b s i j = wrap_b ((merged_inf s i j + merged_sup s i j) / 2)"

definition merged_state :: "merge_t \<Rightarrow> nat \<Rightarrow> nat \<Rightarrow> merge_t" where
  "merged_state s i j =
     s\<lparr>ms_b := (ms_b s)[i := merged_b s i j],
       ms_a := (ms_a s)[i := merged_a s i j, j := 0],
       ms_excluded := (ms_excluded s)[j := True],
       ms_n_overlap := ms_n_overlap s + 1\<rparr>"

lemma merge_pair_eq:
  "merge_pair i j s =
     (if \<bar>norm_bj (ms_b s ! i) (ms_b s ! j) - ms_b s ! i\<bar> > ms_a s ! i + ms_a s ! j then NoOverlap
      else if merged_a s i j > pi then ReturnZero
      else Merged (merged_state s i j))"
  unfolding merge_pair_def Let_def merged_state_def merged_b_def merged_a_def wrap_b_def
    merged_sup_def merged_inf_def
  by (rule refl)

lemma merge_pair_Merged:
  assumes "merge_pair i j s = Merged s1"
  shows "s1 = merged_state s i j" and "merged_a s i j \<le> pi"
    and "\<bar>norm_bj (ms_b s ! i) (ms_b s ! j) - ms_b s ! i\<bar> \<le> ms_a s ! i + ms_a s ! j"
proof -
  have ov: "\<not> \<bar>norm_bj (ms_b s ! i) (ms_b s ! j) - ms_b s ! i\<bar> > ms_a s ! i + ms_a s ! j"
  proof
    assume "\<bar>norm_bj (ms_b s ! i) (ms_b s ! j) - ms_b s ! i\<bar> > ms_a s ! i + ms_a s ! j"
    then have "merge_pair i j s = NoOverlap" by (simp only: merge_pair_eq if_True)
    then show False using assms by simp
  qed
  then show "\<bar>norm_bj (ms_b s ! i) (ms_b s ! j) - ms_b s ! i\<bar> \<le> ms_a s ! i + ms_a s ! j"
    by simp
  have le: "\<not> merged_a s i j > pi"
  proof
    assume "merged_a s i j > pi"
    then have "merge_pair i j s = ReturnZero" using ov by (simp only: merge_pair_eq if_True if_False)
    then show False using assms by simp
  qed
  then show "merged_a s i j \<le> pi" by simp
  have "merge_pair i j s = Merged (merged_state s i j)"
    using ov le by (simp only: merge_pair_eq if_False)
  then show "s1 = merged_state s i j" using assms by simp
qed

lemma merge_inner_Cons_skip:
  "ms_excluded s ! j \<or> i = j \<Longrightarrow> merge_inner n i (j # js) s = merge_inner n i js s"
  by (cases "ms_excluded s ! j") simp_all

lemma merge_inner_Cons_pair:
  "\<not> ms_excluded s ! j \<Longrightarrow> i \<noteq> j \<Longrightarrow>
   merge_inner n i (j # js) s =
     (case merge_pair i j s of
        NoOverlap \<Rightarrow> merge_inner n i js s
      | ReturnZero \<Rightarrow> None
      | Merged s1 \<Rightarrow>
          if int (ms_n_exc s1 + 1) = int n - 1
          then Some (s1\<lparr>ms_n_exc := ms_n_exc s1 + 1\<rparr>)
          else merge_inner n i js (s1\<lparr>ms_n_exc := ms_n_exc s1 + 1\<rparr>))"
  by simp

lemma merge_outer_Cons_skip:
  "ms_excluded s ! i \<Longrightarrow> merge_outer n (i # is) s = merge_outer n is s"
  by simp

lemma merge_outer_Cons_run:
  "\<not> ms_excluded s ! i \<Longrightarrow>
   merge_outer n (i # is) s =
     (case merge_inner n i [0..<n] s of
        None \<Rightarrow> None
      | Some s' \<Rightarrow> if int (ms_n_exc s') = int n - 1 then Some s' else merge_outer n is s')"
  by simp

declare merge_inner.simps(2) [simp del]
declare merge_outer.simps(2) [simp del]

text \<open>An induction rule for the inner loop: a property that holds at the start, is kept
  by every merge (with its counter increment), holds at the end.\<close>

lemma merge_inner_rule:
  assumes res: "merge_inner n i js s = Some s'"
    and init: "P s"
    and step: "\<And>s j. P s \<Longrightarrow> j \<in> set js \<Longrightarrow> \<not> ms_excluded s ! j \<Longrightarrow> i \<noteq> j \<Longrightarrow>
                 merge_pair i j s = Merged (merged_state s i j) \<Longrightarrow>
                 P ((merged_state s i j)\<lparr>ms_n_exc := ms_n_exc s + 1\<rparr>)"
  shows "P s'"
  using res init step
proof (induction js arbitrary: s)
  case Nil
  then show ?case by simp
next
  case (Cons j js)
  have step': "P ((merged_state t i k)\<lparr>ms_n_exc := ms_n_exc t + 1\<rparr>)"
    if "P t" "k \<in> set js" "\<not> ms_excluded t ! k" "i \<noteq> k"
       "merge_pair i k t = Merged (merged_state t i k)" for t k
    using Cons.prems(3) [of t k] that by simp
  show ?case
  proof (cases "ms_excluded s ! j \<or> i = j")
    case True
    then have "merge_inner n i js s = Some s'"
      using Cons.prems(1) by (simp only: merge_inner_Cons_skip)
    then show ?thesis using Cons.prems(2) step' by (rule Cons.IH)
  next
    case False
    then have ne: "\<not> ms_excluded s ! j" "i \<noteq> j" by simp_all
    note eq = merge_inner_Cons_pair [OF ne, of n js]
    show ?thesis
    proof (cases "merge_pair i j s")
      case NoOverlap
      then have "merge_inner n i js s = Some s'" using Cons.prems(1) eq by simp
      then show ?thesis using Cons.prems(2) step' by (rule Cons.IH)
    next
      case ReturnZero
      then show ?thesis using Cons.prems(1) eq by simp
    next
      case (Merged s1)
      have s1: "s1 = merged_state s i j" using merge_pair_Merged(1) [OF Merged] .
      have cnt: "ms_n_exc s1 = ms_n_exc s" by (simp add: s1 merged_state_def)
      have "j \<in> set (j # js)" by simp
      then have "P ((merged_state s i j)\<lparr>ms_n_exc := ms_n_exc s + 1\<rparr>)"
        using Cons.prems(3) [of s j] Cons.prems(2) ne Merged s1 by blast
      then have P1: "P (s1\<lparr>ms_n_exc := ms_n_exc s1 + 1\<rparr>)"
        using cnt s1 by simp
      show ?thesis
      proof (cases "int (ms_n_exc s1 + 1) = int n - 1")
        case True
        then have "s' = s1\<lparr>ms_n_exc := ms_n_exc s1 + 1\<rparr>"
          using Cons.prems(1) eq Merged by simp
        then show ?thesis using P1 by simp
      next
        case False
        then have "merge_inner n i js (s1\<lparr>ms_n_exc := ms_n_exc s1 + 1\<rparr>) = Some s'"
          using Cons.prems(1) eq Merged by simp
        then show ?thesis using P1 step' by (rule Cons.IH)
      qed
    qed
  qed
qed

lemma merge_outer_rule:
  assumes res: "merge_outer n is s = Some s'"
    and init: "P s"
    and step: "\<And>s i s1. P s \<Longrightarrow> i \<in> set is \<Longrightarrow> \<not> ms_excluded s ! i \<Longrightarrow>
                 merge_inner n i [0..<n] s = Some s1 \<Longrightarrow> P s1"
  shows "P s'"
  using res init step
proof (induction "is" arbitrary: s)
  case Nil
  then show ?case by simp
next
  case (Cons i "is")
  have step': "P t1" if "P t" "k \<in> set is" "\<not> ms_excluded t ! k"
      "merge_inner n k [0..<n] t = Some t1" for t k t1
    using Cons.prems(3) [of t k t1] that by simp
  show ?case
  proof (cases "ms_excluded s ! i")
    case True
    then have "merge_outer n is s = Some s'"
      using Cons.prems(1) by (simp only: merge_outer_Cons_skip)
    then show ?thesis using Cons.prems(2) step' by (rule Cons.IH)
  next
    case False
    note eq = merge_outer_Cons_run [OF False, of n "is"]
    obtain s1 where s1: "merge_inner n i [0..<n] s = Some s1"
      using Cons.prems(1) eq by (cases "merge_inner n i [0..<n] s") simp_all
    have "i \<in> set (i # is)" by simp
    then have P1: "P s1" using Cons.prems(3) [OF Cons.prems(2) _ False s1] by blast
    show ?thesis
    proof (cases "int (ms_n_exc s1) = int n - 1")
      case True
      then have "s' = s1" using Cons.prems(1) eq s1 by simp
      then show ?thesis using P1 by simp
    next
      case False
      then have "merge_outer n is s1 = Some s'" using Cons.prems(1) eq s1 by simp
      then show ?thesis using P1 step' by (rule Cons.IH)
    qed
  qed
qed


text \<open>Every overlap of a pass excludes an interval, so a pass that counted an overlap
  hands strictly fewer intervals to the recursive call. This is the termination
  argument of \<^verbatim>\<open>sasa_sum_angles\<close>; it needs no assumption on the two arrays.\<close>

definition merge_mark :: "nat \<Rightarrow> merge_t \<Rightarrow> bool" where
  "merge_mark n s \<longleftrightarrow>
     length (ms_excluded s) = n \<and> (ms_n_overlap s \<noteq> 0 \<longrightarrow> True \<in> set (ms_excluded s))"

lemma merge_inner_mark:
  assumes "merge_inner n i [0..<n] s = Some s'" "merge_mark n s"
  shows "merge_mark n s'"
  using assms
proof (rule merge_inner_rule)
  fix t j
  assume "merge_mark n t" "j \<in> set [0..<n]"
  then show "merge_mark n ((merged_state t i j)\<lparr>ms_n_exc := ms_n_exc t + 1\<rparr>)"
    by (simp add: merge_mark_def merged_state_def set_update_memI)
qed

lemma merge_outer_mark:
  assumes "merge_outer n is s = Some s'" "merge_mark n s"
  shows "merge_mark n s'"
  using assms
proof (rule merge_outer_rule)
  fix t i t1
  assume "merge_mark n t" "merge_inner n i [0..<n] t = Some t1"
  then show "merge_mark n t1" by (simp add: merge_inner_mark)
qed

lemma merge_pass_decreases:
  assumes "merge_pass a b = Some s" "ms_n_overlap s \<noteq> 0"
  shows "length (compact (ms_excluded s) (ms_a s)) < length a"
    and "length (compact (ms_excluded s) (ms_b s)) < length a"
proof -
  have "merge_mark (length a) (merge_init a b)"
    by (simp add: merge_mark_def merge_init_def)
  then have m: "merge_mark (length a) s"
    using assms(1) merge_outer_mark unfolding merge_pass_def by blast
  then have "True \<in> set (ms_excluded s)" using assms(2) by (simp add: merge_mark_def)
  then have "filter id (ms_excluded s) \<noteq> []" by (auto simp: filter_empty_conv)
  then have "0 < length (filter id (ms_excluded s))" by simp
  moreover have "length (filter id (ms_excluded s)) \<le> length (ms_excluded s)" by simp
  ultimately have "length (ms_excluded s) - length (filter id (ms_excluded s)) < length (ms_excluded s)"
    by linarith
  then show "length (compact (ms_excluded s) (ms_a s)) < length a"
    and "length (compact (ms_excluded s) (ms_b s)) < length a"
    using m by (simp_all add: length_compact merge_mark_def)
qed

text \<open>The sum of line 399 to 402.\<close>

definition buried_angle :: "nat \<Rightarrow> real list \<Rightarrow> real" where
  "buried_angle n_buried a = fold (\<lambda>i acc. acc + 2 * a ! i) [0..<n_buried] 0"

text \<open>\<^verbatim>\<open>sasa_sum_angles(n_buried, a, b)\<close> on real half-widths; \<open>n_buried\<close> is the length of
  \<open>a\<close>. The first loop is the assertion \<open>a[i] > 0\<close>.\<close>

function sasa_sum_angles :: "real list \<Rightarrow> real list \<Rightarrow> error + real" where
  "sasa_sum_angles a b =
     (if \<not> list_all (\<lambda>i. a ! i > 0) [0..<length a] then Inl AssertionFailed
      else
        (case merge_pass a b of
           None \<Rightarrow> Inr 0
         | Some s \<Rightarrow>
             if ms_n_overlap s \<noteq> 0
             then sasa_sum_angles (compact (ms_excluded s) (ms_a s))
                                  (compact (ms_excluded s) (ms_b s))
             else Inr (2 * pi - buried_angle (length a) (ms_a s))))"
  by pat_completeness auto
termination
  by (relation "measure (\<lambda>(a, b). length a)") (simp_all add: merge_pass_decreases)

declare sasa_sum_angles.simps [simp del]

text \<open>The same recursion with a bound on the number of recursive calls: \<^term>\<open>None\<close> when
  the bound is used up.\<close>

fun sasa_sum_angles_fuel :: "nat \<Rightarrow> real list \<Rightarrow> real list \<Rightarrow> (error + real) option" where
  "sasa_sum_angles_fuel fuel a b =
     (if \<not> list_all (\<lambda>i. a ! i > 0) [0..<length a] then Some (Inl AssertionFailed)
      else
        (case merge_pass a b of
           None \<Rightarrow> Some (Inr 0)
         | Some s \<Rightarrow>
             if ms_n_overlap s \<noteq> 0
             then (case fuel of
                     0 \<Rightarrow> None
                   | Suc f \<Rightarrow> sasa_sum_angles_fuel f (compact (ms_excluded s) (ms_a s))
                                  (compact (ms_excluded s) (ms_b s)))
             else Some (Inr (2 * pi - buried_angle (length a) (ms_a s)))))"

declare sasa_sum_angles_fuel.simps [simp del]

text \<open>The call of line 314, where an entry of \<open>a\<close> may be NaN: then the assertion
  \<open>a[i] > 0\<close> of the first loop fails.\<close>

definition sasa_sum_angles_dbl :: "real option list \<Rightarrow> real list \<Rightarrow> error + real" where
  "sasa_sum_angles_dbl a b =
     (if None \<in> set a then Inl AssertionFailed else sasa_sum_angles (map the a) b)"

subsection \<open>\<^verbatim>\<open>sasa_exposed_arcs\<close>\<close>

text \<open>
  Modelled from the spec: \<^verbatim>\<open>acos\<close> and \<^verbatim>\<open>atan2\<close> are functions of the C library. \<open>acos\<close>
  of an argument outside \<open>[-1, 1]\<close> is NaN; \<open>atan2 y x\<close> is the polar angle of \<open>(x, y)\<close> in
  \<open>[-pi, pi]\<close>.
\<close>

definition acos_c :: "real \<Rightarrow> real option" where
  "acos_c x = (if - 1 \<le> x \<and> x \<le> 1 then Some (arccos x) else None)"

definition atan2 :: "real \<Rightarrow> real \<Rightarrow> real" where
  "atan2 y x =
     (if x > 0 then arctan (y / x)
      else if x < 0 then (if y \<ge> 0 then arctan (y / x) + pi else arctan (y / x) - pi)
      else if y > 0 then pi / 2
      else if y < 0 then - (pi / 2)
      else 0)"

text \<open>Line 304, \<^verbatim>\<open>acos ((ri*ri + d*d - rj*rj)/(2.0*ri*d))\<close>: a zero divisor makes the
  quotient infinite or NaN, and \<^verbatim>\<open>acos\<close> of either is NaN.\<close>

definition arc_alpha :: "real \<Rightarrow> real \<Rightarrow> real \<Rightarrow> real option" where
  "arc_alpha ri rj d =
     (if 2 * ri * d = 0 then None
      else acos_c ((ri * ri + d * d - rj * rj) / (2 * ri * d)))"

text \<open>The per-atom state of the loop over the neighbours: the arrays \<open>a\<close> and \<open>b\<close> with
  their \<open>n_buried\<close> entries, and \<^verbatim>\<open>is_completely_buried\<close>.\<close>

record arcs_t =
  ar_a :: "real option list"
  ar_b :: "real list"
  ar_buried :: "bool list"

text \<open>The case distinction of lines 290 to 309 for the circles \<open>i\<close> and \<open>j\<close>.\<close>

datatype arc_step = ArcSkip | ArcBuriedSelf | ArcBuriedOther | ArcAdd "real option" real

definition arc_pair :: "real list \<Rightarrow> real list \<Rightarrow> real list \<Rightarrow> nat \<Rightarrow> nat \<Rightarrow> arc_step" where
  "arc_pair x y r i j =
     (let ri = r ! i; rj = r ! j;
          xij = x ! j - x ! i; yij = y ! j - y ! i;
          d = sqrt (xij * xij + yij * yij)
      in if d \<ge> ri + rj then ArcSkip
         else if d + ri < rj then ArcBuriedSelf
         else if d + rj < ri then ArcBuriedOther
         else ArcAdd (arc_alpha ri rj d) (atan2 yij xij))"

text \<open>The loop over the neighbours \<open>ni\<close> of atom \<open>i\<close> (lines 287 to 312), with the
  assertion \<open>i != j\<close> and the \<^verbatim>\<open>break\<close> of line 296.\<close>

fun arcs_inner ::
  "real list \<Rightarrow> real list \<Rightarrow> real list \<Rightarrow> nat list list \<Rightarrow> nat \<Rightarrow> nat list \<Rightarrow> arcs_t
     \<Rightarrow> error + arcs_t" where
  "arcs_inner x y r nb i [] s = Inr s"
| "arcs_inner x y r nb i (ni # nis) s =
     (if i = nb ! i ! ni then Inl AssertionFailed
      else
        (case arc_pair x y r i (nb ! i ! ni) of
           ArcSkip \<Rightarrow> arcs_inner x y r nb i nis s
         | ArcBuriedSelf \<Rightarrow> Inr (s\<lparr>ar_buried := (ar_buried s)[i := True]\<rparr>)
         | ArcBuriedOther \<Rightarrow>
             arcs_inner x y r nb i nis (s\<lparr>ar_buried := (ar_buried s)[nb ! i ! ni := True]\<rparr>)
         | ArcAdd alpha beta \<Rightarrow>
             arcs_inner x y r nb i nis (s\<lparr>ar_a := ar_a s @ [alpha], ar_b := ar_b s @ [beta]\<rparr>)))"

text \<open>One iteration of the loop over the atoms of the slice (lines 279 to 335); the
  state is \<open>exposed_arc\<close> and \<open>is_completely_buried\<close>.\<close>

definition arcs_atom ::
  "real list \<Rightarrow> real list \<Rightarrow> real list \<Rightarrow> nat list list \<Rightarrow> nat list \<Rightarrow> nat
     \<Rightarrow> real list \<times> bool list \<Rightarrow> error + real list \<times> bool list" where
  "arcs_atom x y r nb nn i st =
     (let exposed_arc = (fst st)[i := 0];
          buried = snd st
      in if buried ! i then Inr (exposed_arc, buried)
         else
           (case arcs_inner x y r nb i [0..<nn ! i] \<lparr>ar_a = [], ar_b = [], ar_buried = buried\<rparr> of
              Inl e \<Rightarrow> Inl e
            | Inr s \<Rightarrow>
                if \<not> ar_buried s ! i
                then (case sasa_sum_angles_dbl (ar_a s) (ar_b s) of
                        Inl e \<Rightarrow> Inl e
                      | Inr v \<Rightarrow> Inr (exposed_arc[i := v], ar_buried s))
                else Inr (exposed_arc, ar_buried s)))"

text \<open>A loop whose body may fail: it stops at the first failure.\<close>

fun fold_err :: "('a \<Rightarrow> 's \<Rightarrow> error + 's) \<Rightarrow> 'a list \<Rightarrow> 's \<Rightarrow> error + 's" where
  "fold_err f [] s = Inr s"
| "fold_err f (x # xs) s = (case f x s of Inl e \<Rightarrow> Inl e | Inr s' \<Rightarrow> fold_err f xs s')"

definition sasa_exposed_arcs ::
  "nat \<Rightarrow> real list \<Rightarrow> real list \<Rightarrow> real \<Rightarrow> real list \<Rightarrow> real list \<Rightarrow> nat list list \<Rightarrow> nat list
     \<Rightarrow> error + real list" where
  "sasa_exposed_arcs n_slice x y z r exposed_arc nb nn =
     (case fold_err (arcs_atom x y r nb nn) [0..<n_slice] (exposed_arc, replicate n_slice False) of
        Inl e \<Rightarrow> Inl e
      | Inr st \<Rightarrow> Inr (fst st))"

subsection \<open>\<^verbatim>\<open>sasa_add_slice_area\<close>\<close>

text \<open>Lines 246 to 256: the neighbours of slice atom \<open>i\<close> that are in the slice, by
  their slice-local positions.\<close>

definition slice_neighbours :: "sasa_lr_t \<Rightarrow> slice_t \<Rightarrow> nat \<Rightarrow> nat list" where
  "slice_neighbours lr s i =
     (let i2 = sl_idx s ! i
      in fold (\<lambda>j row. if sl_in_slice s ! (lr_nb lr ! i2 ! j)
                        then row @ [the (sl_xdi s (lr_nb lr ! i2 ! j))] else row)
           [0..<lr_nn lr ! i2] [])"

text \<open>Lines 262 to 264.\<close>

definition add_areas :: "slice_t \<Rightarrow> real list \<Rightarrow> real list \<Rightarrow> real list" where
  "add_areas s exposed_arc sasa =
     fold (\<lambda>i sasa. sasa[sl_idx s ! i :=
                        sasa ! (sl_idx s ! i) + exposed_arc ! i * sl_r s ! i * sl_DR s ! i])
       [0..<sl_n_slice s] sasa"

text \<open>The call of line 259 on the arrays of the slice; \<open>exposed_arc\<close> has been set to
  zero and \<open>nb_slice\<close>, \<open>nn_slice\<close> have been filled by the loops of lines 240 to 256.\<close>

definition slice_exposed_arcs :: "real \<Rightarrow> sasa_lr_t \<Rightarrow> error + real list" where
  "slice_exposed_arcs z lr =
     (let s = locate_atoms z lr;
          n_slice = sl_n_slice s;
          nb_slice = map (slice_neighbours lr s) [0..<n_slice];
          nn_slice = map length nb_slice
      in sasa_exposed_arcs n_slice (sl_x s) (sl_y s) z (sl_r s) (replicate n_slice 0)
           nb_slice nn_slice)"

text \<open>The function returns the array \<^verbatim>\<open>lr.sasa\<close> points to, as it is after the call.\<close>

definition sasa_add_slice_area :: "real \<Rightarrow> sasa_lr_t \<Rightarrow> error + real list" where
  "sasa_add_slice_area z lr =
     (case slice_exposed_arcs z lr of
        Inl e \<Rightarrow> Inl e
      | Inr exposed_arc \<Rightarrow> Inr (add_areas (locate_atoms z lr) exposed_arc (lr_sasa lr)))"

subsection \<open>\<^verbatim>\<open>sasa_get_contacts\<close>\<close>

text \<open>The body of the double loop (lines 422 to 441) for the pair \<open>i < j\<close>; the state is
  \<open>(nb, nn)\<close>.\<close>

definition contact_pair ::
  "coord \<Rightarrow> real list \<Rightarrow> nat \<Rightarrow> nat \<Rightarrow> nat list list \<times> nat list \<Rightarrow> nat list list \<times> nat list" where
  "contact_pair v radii i j st =
     (let ri = radii ! i;
          xi = coord_x v i; yi = coord_y v i; zi = coord_z v i;
          rj = radii ! j;
          cut2 = (ri + rj) * (ri + rj);
          xj = coord_x v j; yj = coord_y v j; zj = coord_z v j
      in if (xj - xi) * (xj - xi) > cut2 \<or> (yj - yi) * (yj - yi) > cut2 \<or>
            (zj - zi) * (zj - zi) > cut2 then st
         else
           (let dx = xj - xi; dy = yj - yi; dz = zj - zi
            in if dx * dx + dy * dy + dz * dz < cut2
               then (let nb = fst st; nn = snd st;
                         nn1 = nn[i := nn ! i + 1];
                         nn2 = nn1[j := nn1 ! j + 1];
                         nb1 = nb[i := nb ! i @ [j]];
                         nb2 = nb1[j := nb1 ! j @ [i]]
                     in (nb2, nn2))
               else st))"

definition sasa_get_contacts :: "coord \<Rightarrow> real list \<Rightarrow> nat list list \<times> nat list" where
  "sasa_get_contacts xyz radii =
     (let n_atoms = coord_n xyz
      in fold (\<lambda>i. fold (contact_pair xyz radii i) [i + 1..<n_atoms]) [0..<n_atoms]
           (replicate n_atoms [], replicate n_atoms 0))"

subsection \<open>\<^verbatim>\<open>sasalib_lee_richards\<close>\<close>

text \<open>Modelled from the spec: the status codes are declared in \<^verbatim>\<open>sasalib.h\<close>;
  \<^verbatim>\<open>sasalib_warn\<close> prints a warning and returns the warning status.\<close>

datatype status = SASALIB_SUCCESS | SASALIB_WARN

text \<open>The loop of lines 120 to 127.\<close>

record lr_init_t =
  li_radii :: "real list"
  li_max_z :: real
  li_min_z :: real
  li_sasa :: "real list"
  li_max_r :: real

definition lr_init_step :: "coord \<Rightarrow> real list \<Rightarrow> real \<Rightarrow> nat \<Rightarrow> lr_init_t \<Rightarrow> lr_init_t" where
  "lr_init_step v atom_radii probe_radius i s =
     (let radius = atom_radii ! i + probe_radius;
          z = coord_z v i; r = radius
      in \<lparr>li_radii = li_radii s @ [radius],
          li_max_z = (if z > li_max_z s then z else li_max_z s),
          li_min_z = (if z < li_min_z s then z else li_min_z s),
          li_sasa = (li_sasa s)[i := 0],
          li_max_r = (if r > li_max_r s then r else li_max_r s)\<rparr>)"

definition lr_init :: "real list \<Rightarrow> coord \<Rightarrow> real list \<Rightarrow> real \<Rightarrow> lr_init_t" where
  "lr_init sasa xyz atom_radii probe_radius =
     fold (lr_init_step xyz atom_radii probe_radius) [0..<coord_n xyz]
       \<lparr>li_radii = [], li_max_z = - (10 ^ 50), li_min_z = 10 ^ 50, li_sasa = sasa, li_max_r = 0\<rparr>"

text \<open>The loop \<^verbatim>\<open>for (double z = min_z; z < max_z; z += delta)\<close> of lines 151 to 153 with
  body \<open>body\<close>. It need not terminate (\<open>delta \<le> 0\<close>): not returning is \<^term>\<open>None\<close>.\<close>

partial_function (option) slice_loop ::
  "(real \<Rightarrow> 's \<Rightarrow> error + 's) \<Rightarrow> real \<Rightarrow> real \<Rightarrow> real \<Rightarrow> 's \<Rightarrow> (error + 's) option" where
  "slice_loop body max_z delta z s =
     (if z < max_z
      then (case body z s of
              Inl e \<Rightarrow> Some (Inl e)
            | Inr s' \<Rightarrow> slice_loop body max_z delta (z + delta) s')
      else Some (Inr s))"

text \<open>The parameters handed to the slice loop (lines 128 to 137).\<close>

definition lr_params :: "real list \<Rightarrow> coord \<Rightarrow> real list \<Rightarrow> real \<Rightarrow> real \<Rightarrow> sasa_lr_t" where
  "lr_params sasa xyz atom_radii probe_radius delta =
     (let s = lr_init sasa xyz atom_radii probe_radius;
          min_z = li_min_z s - li_max_r s + 0.5 * delta;
          max_z = li_max_z s + li_max_r s;
          contacts = sasa_get_contacts xyz (li_radii s)
      in \<lparr>lr_n_atoms = coord_n xyz, lr_radii = li_radii s, lr_xyz = xyz,
          lr_nb = fst contacts, lr_nn = snd contacts, lr_delta = delta,
          lr_min_z = min_z, lr_max_z = max_z, lr_sasa = li_sasa s\<rparr>)"

text \<open>The function as compiled without \<^verbatim>\<open>HAVE_LIBPTHREAD\<close>: a request for several
  threads gives the warning status and one thread. The result is the status and the
  array \<open>sasa\<close>.\<close>

definition sasalib_lee_richards ::
  "real list \<Rightarrow> coord \<Rightarrow> real list \<Rightarrow> real \<Rightarrow> real \<Rightarrow> int \<Rightarrow> (error + status \<times> real list) option" where
  "sasalib_lee_richards sasa xyz atom_radii probe_radius delta n_threads =
     (if coord_n xyz = 0 then Some (Inr (SASALIB_WARN, sasa))
      else
        (let lr = lr_params sasa xyz atom_radii probe_radius delta;
             return_value = (if n_threads > 1 then SASALIB_WARN else SASALIB_SUCCESS);
             n_threads1 = (if n_threads > 1 then 1 else n_threads)
         in if n_threads1 = 1
            then map_option (map_sum id (Pair return_value))
                   (slice_loop (\<lambda>z sasa. sasa_add_slice_area z (lr\<lparr>lr_sasa := sasa\<rparr>))
                      (lr_max_z lr) delta (lr_min_z lr) (lr_sasa lr))
            else Some (Inr (return_value, lr_sasa lr))))"

subsection \<open>The slice range, in closed form\<close>







section \<open>The neighbour index: \<^verbatim>\<open>nb.c\<close>\<close>

subsection \<open>Data\<close>

text \<open>A cell of the cell list. \<open>cell_nb\<close> holds the \<open>n_nb\<close> forward neighbours written to
  the array \<^verbatim>\<open>nb[17]\<close>, each a pointer into the cell array and modelled by its index;
  \<open>cell_atom\<close> holds the \<open>n_atoms\<close> atom indices.\<close>

record cell =
  cell_nb :: "nat list"
  cell_atom :: "nat list"

record cell_list =
  cl_cell :: "cell list"
  cl_n :: int
  cl_nx :: int
  cl_ny :: int
  cl_nz :: int
  cl_d :: real
  cl_x_max :: real
  cl_x_min :: real
  cl_y_max :: real
  cl_y_min :: real
  cl_z_max :: real
  cl_z_min :: real

text \<open>
  Modelled from the spec: \<^verbatim>\<open>freesasa_nb\<close> is declared in \<^verbatim>\<open>nb.h\<close>, outside the two source
  files. Its fields are those that \<^verbatim>\<open>freesasa_nb_alloc\<close> allocates: per atom \<open>i\<close> the count
  \<open>nn[i]\<close>, the neighbour indices \<open>nb[i]\<close>, the parallel arrays \<open>nb_xyd[i]\<close>, \<open>nb_xd[i]\<close>
  and \<open>nb_yd[i]\<close>, and the allocated size \<open>capacity[i]\<close>. Each array is the list of its
  first \<open>nn[i]\<close> entries.
\<close>

record freesasa_nb =
  adj_n :: nat
  adj_nn :: "nat list"
  adj_nb :: "nat list list"
  adj_nb_xyd :: "real list list"
  adj_nb_xd :: "real list list"
  adj_nb_yd :: "real list list"
  adj_capacity :: "nat list"

definition NB_CHUNK :: nat where
  "NB_CHUNK = 32"

text \<open>The conversion of a \<^verbatim>\<open>double\<close> to \<^verbatim>\<open>int\<close> truncates toward zero.\<close>

definition int_of_double :: "real \<Rightarrow> int" where
  "int_of_double v = (if v \<ge> 0 then \<lfloor>v\<rfloor> else \<lceil>v\<rceil>)"

subsection \<open>The cell list\<close>

text \<open>\<^verbatim>\<open>cell_list_bounds\<close>: the loop of lines 60 to 68 keeps the running minima and
  maxima \<open>(x, X, y, Y, z, Z)\<close>, starting from atom 0.\<close>

definition bounds_step ::
  "coord \<Rightarrow> nat \<Rightarrow> real \<times> real \<times> real \<times> real \<times> real \<times> real
     \<Rightarrow> real \<times> real \<times> real \<times> real \<times> real \<times> real" where
  "bounds_step v i b =
     (case b of (x, X, y, Y, z, Z) \<Rightarrow>
        (min (coord_x v i) x, max (coord_x v i) X,
         min (coord_y v i) y, max (coord_y v i) Y,
         min (coord_z v i) z, max (coord_z v i) Z))"

definition cell_list_bounds :: "cell_list \<Rightarrow> coord \<Rightarrow> cell_list" where
  "cell_list_bounds c coord =
     (let n = coord_n coord;
          d = cl_d c;
          b = fold (bounds_step coord) [1..<n]
                (coord_x coord 0, coord_x coord 0, coord_y coord 0, coord_y coord 0,
                 coord_z coord 0, coord_z coord 0)
      in case b of (x, X, y, Y, z, Z) \<Rightarrow>
           (let x_min = x - d / 2; x_max = X + d / 2;
                y_min = y - d / 2; y_max = Y + d / 2;
                z_min = z - d / 2; z_max = Z + d / 2;
                nx = int_of_double (real_of_int \<lceil>(x_max - x_min) / d\<rceil>);
                ny = int_of_double (real_of_int \<lceil>(y_max - y_min) / d\<rceil>);
                nz = int_of_double (real_of_int \<lceil>(z_max - z_min) / d\<rceil>)
            in c\<lparr>cl_x_min := x_min, cl_x_max := x_max,
                 cl_y_min := y_min, cl_y_max := y_max,
                 cl_z_min := z_min, cl_z_max := z_max,
                 cl_nx := nx, cl_ny := ny, cl_nz := nz, cl_n := nx * ny * nz\<rparr>))"

text \<open>\<^verbatim>\<open>cell_index\<close>, with its two assertions.\<close>

definition cell_index :: "cell_list \<Rightarrow> int \<Rightarrow> int \<Rightarrow> int \<Rightarrow> error + int" where
  "cell_index c ix iy iz =
     (if \<not> (ix \<ge> 0 \<and> ix < cl_nx c) then Inl AssertionFailed
      else if \<not> (iy \<ge> 0 \<and> iy < cl_ny c) then Inl AssertionFailed
      else Inr (ix + cl_nx c * (iy + cl_ny c * iz)))"

text \<open>Three nested \<^verbatim>\<open>for\<close> loops over the ranges \<open>xs\<close>, \<open>ys\<close> and \<open>zs\<close> reach the triples
  \<open>(i, j, k)\<close> in this order.\<close>

definition triples :: "int list \<Rightarrow> int list \<Rightarrow> int list \<Rightarrow> (int \<times> int \<times> int) list" where
  "triples xs ys zs = concat (map (\<lambda>i. concat (map (\<lambda>j. map (\<lambda>k. (i, j, k)) zs) ys)) xs)"

text \<open>\<^verbatim>\<open>fill_nb\<close>: the body of the loops of lines 102 to 114 for the triple \<open>(i, j, k)\<close>; the
  state is the list of neighbours written so far.\<close>

definition fill_nb_step ::
  "cell_list \<Rightarrow> int \<Rightarrow> int \<Rightarrow> int \<Rightarrow> int \<times> int \<times> int \<Rightarrow> nat list \<Rightarrow> error + nat list" where
  "fill_nb_step c ix iy iz t nb =
     (case t of (i, j, k) \<Rightarrow>
        if i - ix + j - iy + k - iz \<ge> 0
        then (case cell_index c i j k of
                Inl e \<Rightarrow> Inl e
              | Inr cj \<Rightarrow> Inr (nb @ [nat cj]))
        else Inr nb)"

definition fill_nb :: "cell_list \<Rightarrow> int \<Rightarrow> int \<Rightarrow> int \<Rightarrow> error + cell_list" where
  "fill_nb c ix iy iz =
     (case cell_index c ix iy iz of
        Inl e \<Rightarrow> Inl e
      | Inr ci \<Rightarrow>
          (let xmin = (if ix > 0 then ix - 1 else 0);
               xmax = (if ix < cl_nx c - 1 then ix + 1 else ix);
               ymin = (if iy > 0 then iy - 1 else 0);
               ymax = (if iy < cl_ny c - 1 then iy + 1 else iy);
               zmin = (if iz > 0 then iz - 1 else 0);
               zmax = (if iz < cl_nz c - 1 then iz + 1 else iz)
           in case fold_err (fill_nb_step c ix iy iz)
                     (triples [xmin..xmax] [ymin..ymax] [zmin..zmax]) [] of
                Inl e \<Rightarrow> Inl e
              | Inr nb \<Rightarrow>
                  if \<not> length nb > 0 then Inl AssertionFailed
                  else Inr (c\<lparr>cl_cell := (cl_cell c)[nat ci :=
                                 (cl_cell c ! nat ci)\<lparr>cell_nb := nb\<rparr>]\<rparr>)))"

text \<open>\<^verbatim>\<open>get_nb\<close>: the loops over all cells.\<close>

definition get_nb :: "cell_list \<Rightarrow> error + cell_list" where
  "get_nb c =
     fold_err (\<lambda>t c. case t of (ix, iy, iz) \<Rightarrow> fill_nb c ix iy iz)
       (triples [0..cl_nx c - 1] [0..cl_ny c - 1] [0..cl_nz c - 1]) c"

definition coord2cell_index :: "cell_list \<Rightarrow> real \<times> real \<times> real \<Rightarrow> error + int" where
  "coord2cell_index c xyz =
     (let d = cl_d c;
          ix = int_of_double ((fst xyz - cl_x_min c) / d);
          iy = int_of_double ((fst (snd xyz) - cl_y_min c) / d);
          iz = int_of_double ((snd (snd xyz) - cl_z_min c) / d)
      in cell_index c ix iy iz)"

text \<open>\<^verbatim>\<open>fill_cells\<close>: the first loop empties every cell; the second appends each atom
  to its cell.\<close>

definition fill_cells_step :: "coord \<Rightarrow> nat \<Rightarrow> cell_list \<Rightarrow> error + cell_list" where
  "fill_cells_step coord i c =
     (case coord2cell_index c (coord ! i) of
        Inl e \<Rightarrow> Inl e
      | Inr idx \<Rightarrow>
          Inr (c\<lparr>cl_cell := (cl_cell c)[nat idx :=
                   (cl_cell c ! nat idx)\<lparr>cell_atom := cell_atom (cl_cell c ! nat idx) @ [i]\<rparr>]\<rparr>))"

definition fill_cells :: "cell_list \<Rightarrow> coord \<Rightarrow> error + cell_list" where
  "fill_cells c coord =
     fold_err (fill_cells_step coord) [0..<coord_n coord]
       (c\<lparr>cl_cell := map (\<lambda>cell. cell\<lparr>cell_atom := []\<rparr>) (cl_cell c)\<rparr>)"

definition cell_list_new :: "real \<Rightarrow> coord \<Rightarrow> error + cell_list" where
  "cell_list_new cell_size coord =
     (if \<not> cell_size > 0 then Inl AssertionFailed
      else
        (let c0 = \<lparr>cl_cell = [], cl_n = 0, cl_nx = 0, cl_ny = 0, cl_nz = 0, cl_d = cell_size,
                    cl_x_max = 0, cl_x_min = 0, cl_y_max = 0, cl_y_min = 0,
                    cl_z_max = 0, cl_z_min = 0\<rparr>;
             c1 = cell_list_bounds c0 coord;
             c2 = c1\<lparr>cl_cell := replicate (nat (cl_n c1)) \<lparr>cell_nb = [], cell_atom = []\<rparr>\<rparr>
         in case fill_cells c2 coord of
              Inl e \<Rightarrow> Inl e
            | Inr c3 \<Rightarrow> get_nb c3))"

subsection \<open>The neighbour list\<close>

text \<open>\<^verbatim>\<open>max_array\<close>.\<close>

definition max_array :: "real list \<Rightarrow> nat \<Rightarrow> real" where
  "max_array a n = fold (\<lambda>i m. max (a ! i) m) [0..<n] 0"

definition freesasa_nb_alloc :: "nat \<Rightarrow> error + freesasa_nb" where
  "freesasa_nb_alloc n =
     (if \<not> n > 0 then Inl AssertionFailed
      else Inr \<lparr>adj_n = n, adj_nn = replicate n 0, adj_nb = replicate n [],
                adj_nb_xyd = replicate n [], adj_nb_xd = replicate n [],
                adj_nb_yd = replicate n [], adj_capacity = replicate n NB_CHUNK\<rparr>)"

text \<open>\<^verbatim>\<open>chunk_up\<close>: the new capacity (the four arrays keep their entries).\<close>

definition chunk_up :: "nat \<Rightarrow> nat \<Rightarrow> nat" where
  "chunk_up capacity nni = (if nni > capacity then capacity + NB_CHUNK else capacity)"

definition nb_add_pair :: "freesasa_nb \<Rightarrow> nat \<Rightarrow> nat \<Rightarrow> real \<Rightarrow> real \<Rightarrow> error + freesasa_nb" where
  "nb_add_pair adj i j dx dy =
     (if i = j then Inl AssertionFailed
      else
        (let nn1 = (adj_nn adj)[i := adj_nn adj ! i + 1];
             nn2 = nn1[j := nn1 ! j + 1];
             cap1 = (adj_capacity adj)[i := chunk_up (adj_capacity adj ! i) (nn2 ! i)];
             cap2 = cap1[j := chunk_up (cap1 ! j) (nn2 ! j)];
             nb1 = (adj_nb adj)[i := adj_nb adj ! i @ [j]];
             nb2 = nb1[j := nb1 ! j @ [i]];
             d = sqrt (dx * dx + dy * dy);
             xyd1 = (adj_nb_xyd adj)[i := adj_nb_xyd adj ! i @ [d]];
             xyd2 = xyd1[j := xyd1 ! j @ [d]];
             xd1 = (adj_nb_xd adj)[i := adj_nb_xd adj ! i @ [dx]];
             xd2 = xd1[j := xd1 ! j @ [- dx]];
             yd1 = (adj_nb_yd adj)[i := adj_nb_yd adj ! i @ [dy]];
             yd2 = yd1[j := yd1 ! j @ [- dy]]
         in Inr (adj\<lparr>adj_nn := nn2, adj_capacity := cap2, adj_nb := nb2,
                     adj_nb_xyd := xyd2, adj_nb_xd := xd2, adj_nb_yd := yd2\<rparr>)))"

text \<open>The body of the inner loop of \<^verbatim>\<open>nb_calc_cell_pair\<close> (lines 326 to 339) for the
  atoms \<open>ia\<close> and \<open>ja\<close>.\<close>

definition nb_check_pair ::
  "coord \<Rightarrow> real list \<Rightarrow> nat \<Rightarrow> nat \<Rightarrow> freesasa_nb \<Rightarrow> error + freesasa_nb" where
  "nb_check_pair v radii ia ja adj =
     (if ia = ja then Inl AssertionFailed
      else
        (let ri = radii ! ia;
             xi = coord_x v ia; yi = coord_y v ia; zi = coord_z v ia;
             rj = radii ! ja;
             xj = coord_x v ja; yj = coord_y v ja; zj = coord_z v ja;
             cut2 = (ri + rj) * (ri + rj)
         in if (xj - xi) * (xj - xi) > cut2 \<or> (yj - yi) * (yj - yi) > cut2 \<or>
               (zj - zi) * (zj - zi) > cut2 then Inr adj
            else
              (let dx = xj - xi; dy = yj - yi; dz = zj - zi
               in if dx * dx + dy * dy + dz * dz < cut2 then nb_add_pair adj ia ja dx dy
                  else Inr adj)))"

text \<open>\<^verbatim>\<open>nb_calc_cell_pair\<close> for the cells with indices \<open>ic\<close> and \<open>jc\<close>; the pointer test
  \<open>ci == cj\<close> is the test \<open>ic = jc\<close>.\<close>

definition nb_calc_cell_pair ::
  "coord \<Rightarrow> real list \<Rightarrow> cell list \<Rightarrow> nat \<Rightarrow> nat \<Rightarrow> freesasa_nb \<Rightarrow> error + freesasa_nb" where
  "nb_calc_cell_pair coord radii cells ic jc adj =
     fold_err
       (\<lambda>i. fold_err (\<lambda>j. nb_check_pair coord radii (cell_atom (cells ! ic) ! i)
                                                    (cell_atom (cells ! jc) ! j))
               [(if ic = jc then i + 1 else 0)..<length (cell_atom (cells ! jc))])
       [0..<length (cell_atom (cells ! ic))] adj"

definition nb_fill_list ::
  "freesasa_nb \<Rightarrow> cell_list \<Rightarrow> coord \<Rightarrow> real list \<Rightarrow> error + freesasa_nb" where
  "nb_fill_list adj c coord radii =
     fold_err
       (\<lambda>ic. fold_err (\<lambda>jc. nb_calc_cell_pair coord radii (cl_cell c) ic
                                 (cell_nb (cl_cell c ! ic) ! jc))
                [0..<length (cell_nb (cl_cell c ! ic))])
       [0..<nat (cl_n c)] adj"

definition freesasa_nb_new :: "coord \<Rightarrow> real list \<Rightarrow> error + freesasa_nb" where
  "freesasa_nb_new coord radii =
     (let n = coord_n coord
      in case freesasa_nb_alloc n of
           Inl e \<Rightarrow> Inl e
         | Inr adj \<Rightarrow>
             (let cell_size = 2 * max_array radii n
              in if \<not> cell_size > 0 then Inl AssertionFailed
                 else (case cell_list_new cell_size coord of
                         Inl e \<Rightarrow> Inl e
                       | Inr c \<Rightarrow> nb_fill_list adj c coord radii)))"

text \<open>\<^verbatim>\<open>freesasa_nb_contact\<close>: the linear scan of \<open>nb[i]\<close>.\<close>

definition freesasa_nb_contact :: "freesasa_nb \<Rightarrow> int \<Rightarrow> int \<Rightarrow> error + int" where
  "freesasa_nb_contact adj i j =
     (if \<not> (i < int (adj_n adj) \<and> i \<ge> 0) then Inl AssertionFailed
      else if \<not> (j < int (adj_n adj) \<and> j \<ge> 0) then Inl AssertionFailed
      else if \<exists>k \<in> set [0..<adj_nn adj ! nat i]. int (adj_nb adj ! nat i ! k) = j then Inr 1
      else Inr 0)"

section \<open>Concrete inputs\<close>

text \<open>Two atoms on the \<open>x\<close> axis, radii 2 and 1, centres at distance 1: in the plane
  \<open>z = 0\<close> the small circle touches the large one from inside.\<close>

definition ex_xyz :: coord where
  "ex_xyz = [(0, 0, 0), (1, 0, 0)]"

definition ex_lr :: sasa_lr_t where
  "ex_lr = \<lparr>lr_n_atoms = 2, lr_radii = [2, 1], lr_xyz = ex_xyz,
            lr_nb = [[1], [0]], lr_nn = [1, 1], lr_delta = 4,
            lr_min_z = 0, lr_max_z = 2, lr_sasa = [0, 0]\<rparr>"

text \<open>One atom of radius 1 at the origin, slices of thickness 2.\<close>

definition ex_lr1 :: sasa_lr_t where
  "ex_lr1 = \<lparr>lr_n_atoms = 1, lr_radii = [1], lr_xyz = [(0, 0, 0)],
             lr_nb = [[]], lr_nn = [0], lr_delta = 2,
             lr_min_z = 0, lr_max_z = 1, lr_sasa = [0]\<rparr>"

section \<open>Properties of the slice filter\<close>

lemma locate_step_in:
  "in_slice_test z lr i \<Longrightarrow>
   locate_step z lr i s =
     s\<lparr>sl_x := sl_x s @ [coord_x (lr_xyz lr) i],
       sl_y := sl_y s @ [coord_y (lr_xyz lr) i],
       sl_r := sl_r s @ [slice_radius z lr i],
       sl_DR := sl_DR s @ [slice_DR z lr i],
       sl_idx := sl_idx s @ [i],
       sl_xdi := (sl_xdi s)(i \<mapsto> sl_n_slice s),
       sl_n_slice := sl_n_slice s + 1,
       sl_in_slice := (sl_in_slice s)[i := True]\<rparr>"
  by (simp add: locate_step_def in_slice_test_def slice_radius_def slice_DR_def Let_def)

lemma locate_step_out:
  "\<not> in_slice_test z lr i \<Longrightarrow>
   locate_step z lr i s = s\<lparr>sl_in_slice := (sl_in_slice s)[i := False]\<rparr>"
  by (simp add: locate_step_def in_slice_test_def Let_def)

text \<open>The state after the first \<open>m\<close> iterations, in closed form.\<close>

definition located :: "real \<Rightarrow> sasa_lr_t \<Rightarrow> nat \<Rightarrow> nat \<Rightarrow> slice_t" where
  "located z lr n m =
     (let idx = filter (in_slice_test z lr) [0..<m] in
      \<lparr>sl_x = map (coord_x (lr_xyz lr)) idx,
       sl_y = map (coord_y (lr_xyz lr)) idx,
       sl_r = map (slice_radius z lr) idx,
       sl_DR = map (slice_DR z lr) idx,
       sl_idx = idx,
       sl_xdi = (\<lambda>i. if i < m \<and> in_slice_test z lr i
                       then Some (length (filter (in_slice_test z lr) [0..<i])) else None),
       sl_in_slice = map (in_slice_test z lr) [0..<m] @ replicate (n - m) False,
       sl_n_slice = length idx\<rparr>)"

lemma map_upt_replicate_update:
  "m < n \<Longrightarrow> (map f [0..<m] @ replicate (n - m) False)[m := b]
     = map (\<lambda>i. if i = m then b else f i) [0..<Suc m] @ replicate (n - Suc m) False"
proof -
  assume mn: "m < n"
  then have "replicate (n - m) False = False # replicate (n - Suc m) False"
    by (metis Suc_diff_Suc replicate_Suc)
  then show ?thesis
    by (simp add: list_update_append)
qed

lemma located_Suc:
  assumes "m < n"
  shows "locate_step z lr m (located z lr n m) = located z lr n (Suc m)"
proof (cases "in_slice_test z lr m")
  case True
  have xdi: "(\<lambda>i. if i < m \<and> in_slice_test z lr i
                then Some (length (filter (in_slice_test z lr) [0..<i])) else None)
             (m \<mapsto> length (filter (in_slice_test z lr) [0..<m]))
           = (\<lambda>i. if i < Suc m \<and> in_slice_test z lr i
                then Some (length (filter (in_slice_test z lr) [0..<i])) else None)"
    using True by (auto simp: fun_eq_iff less_Suc_eq)
  have ins: "(map (in_slice_test z lr) [0..<m] @ replicate (n - m) False)[m := True]
           = map (in_slice_test z lr) [0..<Suc m] @ replicate (n - Suc m) False"
    using True by (simp add: map_upt_replicate_update [OF assms])
  have fl: "filter (in_slice_test z lr) [0..<Suc m] = filter (in_slice_test z lr) [0..<m] @ [m]"
    using True by simp
  show ?thesis
    using True xdi ins
    by (simp add: locate_step_in located_def Let_def fl del: upt_Suc)
next
  case False
  have ins: "(map (in_slice_test z lr) [0..<m] @ replicate (n - m) False)[m := False]
           = map (in_slice_test z lr) [0..<Suc m] @ replicate (n - Suc m) False"
    using False by (simp add: map_upt_replicate_update [OF assms])
  have xdi: "(\<lambda>i. if i < m \<and> in_slice_test z lr i
                then Some (length (filter (in_slice_test z lr) [0..<i])) else None)
           = (\<lambda>i. if i < Suc m \<and> in_slice_test z lr i
                then Some (length (filter (in_slice_test z lr) [0..<i])) else None)"
    using False by (auto simp: fun_eq_iff less_Suc_eq)
  have fl: "filter (in_slice_test z lr) [0..<Suc m] = filter (in_slice_test z lr) [0..<m]"
    using False by simp
  show ?thesis
    using False ins xdi
    by (simp add: locate_step_out located_def Let_def fl del: upt_Suc)
qed

lemma locate_fold:
  "m \<le> n \<Longrightarrow> fold (locate_step z lr) [0..<m] (slice_empty n) = located z lr n m"
proof (induction m)
  case 0
  show ?case by (simp add: slice_empty_def located_def)
next
  case (Suc m)
  then show ?case by (simp add: located_Suc)
qed

lemma locate_atoms_eq: "locate_atoms z lr = located z lr (lr_n_atoms lr) (lr_n_atoms lr)"
  by (simp add: locate_atoms_def locate_fold)




section \<open>Properties of the interval merge\<close>

lemma norm_bj_range: "- pi \<le> norm_bj bi bj - bi \<and> norm_bj bi bj - bi \<le> pi"
proof (induction bi bj rule: norm_bj.induct)
  case (1 bi bj)
  show ?case
  proof (cases "bj - bi > pi")
    case True
    then show ?thesis using 1(1) by (subst norm_bj.simps, subst (2) norm_bj.simps) simp
  next
    case False
    show ?thesis
    proof (cases "bj - bi < - pi")
      case True
      then show ?thesis using False 1(2)
        by (subst norm_bj.simps, subst (2) norm_bj.simps) simp
    next
      case nlt: False
      then show ?thesis using False
        by (subst norm_bj.simps, subst (2) norm_bj.simps) simp
    qed
  qed
qed

lemma norm_bj_shift: "\<exists>m::int. norm_bj bi bj = bj + 2 * pi * real_of_int m"
proof (induction bi bj rule: norm_bj.induct)
  case (1 bi bj)
  show ?case
  proof (cases "bj - bi > pi")
    case True
    then obtain m :: int where "norm_bj bi (bj - 2 * pi) = bj - 2 * pi + 2 * pi * real_of_int m"
      using 1(1) by blast
    then have "norm_bj bi bj = bj + 2 * pi * real_of_int (m - 1)"
      using True by (subst norm_bj.simps) (simp add: algebra_simps)
    then show ?thesis by blast
  next
    case False
    show ?thesis
    proof (cases "bj - bi < - pi")
      case True
      then obtain m :: int where "norm_bj bi (bj + 2 * pi) = bj + 2 * pi + 2 * pi * real_of_int m"
        using False 1(2) by blast
      then have "norm_bj bi bj = bj + 2 * pi * real_of_int (m + 1)"
        using True False by (subst norm_bj.simps) (simp add: algebra_simps)
      then show ?thesis by blast
    next
      case nlt: False
      then have "norm_bj bi bj = bj + 2 * pi * real_of_int 0"
        using False by (subst norm_bj.simps) simp
      then show ?thesis by blast
    qed
  qed
qed

lemma two_pi_multiple_small:
  assumes "\<bar>2 * pi * real_of_int m\<bar> \<le> pi"
  shows "m = 0"
proof (rule ccontr)
  assume "m \<noteq> 0"
  then have "1 \<le> \<bar>m\<bar>" by simp
  then have "1 \<le> \<bar>real_of_int m\<bar>" by (metis of_int_1_le_iff of_int_abs)
  then have "2 * pi * 1 \<le> 2 * pi * \<bar>real_of_int m\<bar>"
    using pi_gt_zero by (intro mult_left_mono) simp_all
  then have "2 * pi \<le> \<bar>2 * pi * real_of_int m\<bar>"
    using pi_gt_zero by (simp add: abs_mult)
  then show False using assms pi_gt_zero by linarith
qed

lemma norm_bj_same: "norm_bj bi (bi + 2 * pi * real_of_int m) = bi"
proof -
  obtain k :: int where k: "norm_bj bi (bi + 2 * pi * real_of_int m)
      = bi + 2 * pi * real_of_int m + 2 * pi * real_of_int k"
    using norm_bj_shift by blast
  have "\<bar>norm_bj bi (bi + 2 * pi * real_of_int m) - bi\<bar> \<le> pi"
    using norm_bj_range [of bi "bi + 2 * pi * real_of_int m"] by (simp add: abs_le_iff)
  moreover have "norm_bj bi (bi + 2 * pi * real_of_int m) - bi = 2 * pi * real_of_int (m + k)"
    by (subst k) (simp add: algebra_simps)
  ultimately have "\<bar>2 * pi * real_of_int (m + k)\<bar> \<le> pi"
    by (simp only:)
  then have "m + k = 0" by (rule two_pi_multiple_small)
  then have "real_of_int m + real_of_int k = 0" by (metis of_int_add of_int_0)
  then have "2 * pi * real_of_int m + 2 * pi * real_of_int k = 0"
    by (simp add: algebra_simps flip: distrib_left)
  then show ?thesis using k by simp
qed

lemma wrap_b_shift: "\<exists>m::int. wrap_b x = x + 2 * pi * real_of_int m"
proof -
  have "wrap_b x = x \<or> wrap_b x = x - 2 * pi \<or> wrap_b x = x + 2 * pi"
    by (simp add: wrap_b_def)
  moreover have "x = x + 2 * pi * real_of_int 0" by simp
  moreover have "x - 2 * pi = x + 2 * pi * real_of_int (- 1)" by simp
  moreover have "x + 2 * pi = x + 2 * pi * real_of_int 1" by simp
  ultimately show ?thesis by metis
qed


subsection \<open>Termination and recursion depth\<close>

lemma sasa_sum_angles_fuel_enough:
  "length a \<le> fuel \<Longrightarrow> sasa_sum_angles_fuel fuel a b = Some (sasa_sum_angles a b)"
proof (induction fuel arbitrary: a b)
  case 0
  show ?case
  proof (cases "merge_pass a b")
    case None
    then show ?thesis
      by (subst sasa_sum_angles_fuel.simps, subst sasa_sum_angles.simps) simp
  next
    case (Some s)
    have "ms_n_overlap s = 0"
      using merge_pass_decreases(1) [OF Some] 0 by fastforce
    then show ?thesis using Some
      by (subst sasa_sum_angles_fuel.simps, subst sasa_sum_angles.simps) simp
  qed
next
  case (Suc f)
  show ?case
  proof (cases "merge_pass a b")
    case None
    then show ?thesis
      by (subst sasa_sum_angles_fuel.simps, subst sasa_sum_angles.simps) simp
  next
    case (Some s)
    show ?thesis
    proof (cases "ms_n_overlap s = 0")
      case True
      then show ?thesis using Some
        by (subst sasa_sum_angles_fuel.simps, subst sasa_sum_angles.simps) simp
    next
      case False
      then have "length (compact (ms_excluded s) (ms_a s)) < length a"
        using merge_pass_decreases(1) [OF Some] by simp
      then have "length (compact (ms_excluded s) (ms_a s)) \<le> f" using Suc.prems by simp
      then have "sasa_sum_angles_fuel f (compact (ms_excluded s) (ms_a s))
                     (compact (ms_excluded s) (ms_b s))
                 = Some (sasa_sum_angles (compact (ms_excluded s) (ms_a s))
                     (compact (ms_excluded s) (ms_b s)))"
        by (rule Suc.IH)
      then show ?thesis using Some False
        by (subst sasa_sum_angles_fuel.simps, subst sasa_sum_angles.simps) simp
    qed
  qed
qed


subsection \<open>One interval, repeated\<close>

text \<open>The state of the pass over \<open>k\<close> copies of the interval \<open>(\<alpha>, \<beta>)\<close> when the inner loop
  for \<open>i = 0\<close> is about to visit \<open>j0\<close>: the copies \<open>1, \<dots>, j0 - 1\<close> are merged into
  interval \<open>0\<close> and excluded, and interval \<open>0\<close> is still \<open>(\<alpha>, \<beta>)\<close> up to a multiple of
  \<open>2 * pi\<close>.\<close>

definition rep_state :: "nat \<Rightarrow> real \<Rightarrow> real \<Rightarrow> nat \<Rightarrow> merge_t \<Rightarrow> bool" where
  "rep_state k \<alpha> \<beta> j0 s \<longleftrightarrow>
     length (ms_a s) = k \<and> length (ms_b s) = k \<and> length (ms_excluded s) = k \<and>
     ms_a s ! 0 = \<alpha> \<and> (\<exists>m::int. ms_b s ! 0 = \<beta> + 2 * pi * real_of_int m) \<and>
     \<not> ms_excluded s ! 0 \<and>
     (\<forall>j. 1 \<le> j \<and> j < j0 \<longrightarrow> ms_excluded s ! j) \<and>
     (\<forall>j. j0 \<le> j \<and> j < k \<longrightarrow> \<not> ms_excluded s ! j \<and> ms_a s ! j = \<alpha> \<and> ms_b s ! j = \<beta>) \<and>
     ms_n_exc s + 1 = j0 \<and> ms_n_overlap s + 1 = j0"

lemma rep_state_merge:
  assumes st: "rep_state k \<alpha> \<beta> j0 s" and j0: "1 \<le> j0" "j0 < k" and \<alpha>: "0 < \<alpha>" "\<alpha> \<le> pi"
  shows "merge_pair 0 j0 s = Merged (merged_state s 0 j0)"
    and "rep_state k \<alpha> \<beta> (Suc j0) ((merged_state s 0 j0)\<lparr>ms_n_exc := ms_n_exc s + 1\<rparr>)"
proof -
  obtain m :: int where m: "ms_b s ! 0 = \<beta> + 2 * pi * real_of_int m"
    using st by (auto simp: rep_state_def)
  have a0: "ms_a s ! 0 = \<alpha>" and aj: "ms_a s ! j0 = \<alpha>" and bj: "ms_b s ! j0 = \<beta>"
    using st j0 by (auto simp: rep_state_def)
  have "\<beta> = ms_b s ! 0 + 2 * pi * real_of_int (- m)" using m by simp
  then have "norm_bj (ms_b s ! 0) \<beta> = ms_b s ! 0"
    using norm_bj_same [of "ms_b s ! 0" "- m"] by simp
  then have nb: "norm_bj (ms_b s ! 0) (ms_b s ! j0) = ms_b s ! 0" using bj by simp
  have inf: "merged_inf s 0 j0 = ms_b s ! 0 - \<alpha>" by (simp add: merged_inf_def nb a0 aj)
  have sup: "merged_sup s 0 j0 = ms_b s ! 0 + \<alpha>" by (simp add: merged_sup_def nb a0 aj)
  have ma: "merged_a s 0 j0 = \<alpha>" by (simp add: merged_a_def inf sup)
  have mb: "merged_b s 0 j0 = wrap_b (ms_b s ! 0)" by (simp add: merged_b_def inf sup)
  show "merge_pair 0 j0 s = Merged (merged_state s 0 j0)"
    using \<alpha> by (simp add: merge_pair_eq nb a0 aj ma)
  obtain m' :: int where "wrap_b (ms_b s ! 0) = ms_b s ! 0 + 2 * pi * real_of_int m'"
    using wrap_b_shift by blast
  then have "wrap_b (ms_b s ! 0) = \<beta> + 2 * pi * real_of_int (m + m')"
    using m by (simp add: algebra_simps)
  then have ex: "\<exists>m::int. wrap_b (ms_b s ! 0) = \<beta> + 2 * pi * real_of_int m" by blast
  have len: "length (ms_a s) = k" "length (ms_b s) = k" "length (ms_excluded s) = k"
    using st by (auto simp: rep_state_def)
  have cnt: "ms_n_exc s + 1 = j0" "ms_n_overlap s + 1 = j0"
    using st by (auto simp: rep_state_def)
  have old: "\<And>j. 1 \<le> j \<and> j < j0 \<Longrightarrow> ms_excluded s ! j"
    and new: "\<And>j. j0 \<le> j \<and> j < k \<Longrightarrow> \<not> ms_excluded s ! j \<and> ms_a s ! j = \<alpha> \<and> ms_b s ! j = \<beta>"
    and e0: "\<not> ms_excluded s ! 0"
    using st by (auto simp: rep_state_def)
  show "rep_state k \<alpha> \<beta> (Suc j0) ((merged_state s 0 j0)\<lparr>ms_n_exc := ms_n_exc s + 1\<rparr>)"
    unfolding rep_state_def merged_state_def
    using j0 len cnt ex e0 old new
    by (auto simp: ma mb nth_list_update less_Suc_eq)
qed

lemma rep_inner:
  assumes \<alpha>: "0 < \<alpha>" "\<alpha> \<le> pi"
  shows "rep_state k \<alpha> \<beta> j0 s \<Longrightarrow> 1 \<le> j0 \<Longrightarrow> j0 \<le> k \<Longrightarrow>
     \<exists>s'. merge_inner k 0 [j0..<k] s = Some s' \<and> rep_state k \<alpha> \<beta> k s'"
proof (induction "k - j0" arbitrary: j0 s)
  case 0
  then have "j0 = k" by simp
  then show ?case using 0 by simp
next
  case (Suc d)
  then have lt: "j0 < k" by simp
  let ?s1 = "(merged_state s 0 j0)\<lparr>ms_n_exc := ms_n_exc s + 1\<rparr>"
  have mp: "merge_pair 0 j0 s = Merged (merged_state s 0 j0)"
    and st1: "rep_state k \<alpha> \<beta> (Suc j0) ?s1"
    using rep_state_merge [OF Suc.prems(1,2) lt \<alpha>] by simp_all
  have ne: "\<not> ms_excluded s ! j0" "0 \<noteq> j0"
    using Suc.prems(1,2) lt by (auto simp: rep_state_def)
  have cnt: "ms_n_exc (merged_state s 0 j0) = ms_n_exc s" by (simp add: merged_state_def)
  have up: "[j0..<k] = j0 # [Suc j0..<k]" using lt by (simp add: upt_conv_Cons)
  have step: "merge_inner k 0 [j0..<k] s =
       (if int (ms_n_exc s + 1) = int k - 1 then Some ?s1
        else merge_inner k 0 [Suc j0..<k] ?s1)"
    unfolding up by (simp add: merge_inner_Cons_pair [OF ne] mp cnt)
  show ?case
  proof (cases "int (ms_n_exc s + 1) = int k - 1")
    case True
    moreover have "ms_n_exc s + 1 = j0" using Suc.prems(1) by (simp add: rep_state_def)
    ultimately have "Suc j0 = k" by linarith
    then show ?thesis using step True st1 by simp
  next
    case False
    have "d = k - Suc j0" using Suc.hyps(2) by simp
    then obtain s' where "merge_inner k 0 [Suc j0..<k] ?s1 = Some s'" "rep_state k \<alpha> \<beta> k s'"
      using Suc.hyps(1) [of "Suc j0" ?s1] st1 lt by auto
    then show ?thesis using step False by simp
  qed
qed

lemma rep_pass:
  assumes \<alpha>: "0 < \<alpha>" "\<alpha> \<le> pi" and k: "2 \<le> k"
  shows "\<exists>s. merge_pass (replicate k \<alpha>) (replicate k \<beta>) = Some s \<and> rep_state k \<alpha> \<beta> k s"
proof -
  let ?s0 = "merge_init (replicate k \<alpha>) (replicate k \<beta>)"
  have "\<beta> = \<beta> + 2 * pi * real_of_int 0" by simp
  then have ex: "\<exists>m::int. \<beta> = \<beta> + 2 * pi * real_of_int m" by blast
  have st0: "rep_state k \<alpha> \<beta> 1 ?s0"
    using k ex by (simp add: rep_state_def merge_init_def)
  have up: "[0..<k] = 0 # [1..<k]" using k by (simp add: upt_conv_Cons)
  obtain s' where s': "merge_inner k 0 [1..<k] ?s0 = Some s'" "rep_state k \<alpha> \<beta> k s'"
    using rep_inner [OF \<alpha> st0] k by auto
  have inner: "merge_inner k 0 [0..<k] ?s0 = Some s'"
    unfolding up using s'(1) by (simp add: merge_inner_Cons_skip)
  have e0: "\<not> ms_excluded ?s0 ! 0" using k by (simp add: merge_init_def)
  have "ms_n_exc s' + 1 = k" using s'(2) by (simp add: rep_state_def)
  then have fin: "int (ms_n_exc s') = int k - 1" by linarith
  have "merge_outer k [0..<k] ?s0 = merge_outer k (0 # [1..<k]) ?s0" using up by simp
  also have "\<dots> = (case merge_inner k 0 [0..<k] ?s0 of None \<Rightarrow> None
        | Some s' \<Rightarrow> if int (ms_n_exc s') = int k - 1 then Some s' else merge_outer k [1..<k] s')"
    by (rule merge_outer_Cons_run [OF e0])
  also have "\<dots> = Some s'" using inner fin by simp
  finally have "merge_outer k [0..<k] ?s0 = Some s'" .
  then show ?thesis using s'(2) by (auto simp: merge_pass_def)
qed

lemma buried_angle_single: "buried_angle (Suc 0) [x] = 2 * x"
  by (simp add: buried_angle_def)

lemma sasa_sum_angles_single:
  assumes "0 < \<alpha>"
  shows "sasa_sum_angles [\<alpha>] [\<beta>] = Inr (2 * pi - 2 * \<alpha>)"
proof -
  let ?s0 = "merge_init [\<alpha>] [\<beta>]"
  have inner: "merge_inner 1 0 [0..<1] ?s0 = Some ?s0" by (simp add: merge_inner_Cons_skip)
  have e0: "\<not> ms_excluded ?s0 ! 0" by (simp add: merge_init_def)
  have cnt: "int (ms_n_exc ?s0) = int 1 - 1" by (simp add: merge_init_def)
  have "merge_outer 1 [0..<1] ?s0 = merge_outer 1 (0 # []) ?s0" by simp
  also have "\<dots> = (case merge_inner 1 0 [0..<1] ?s0 of None \<Rightarrow> None
        | Some s' \<Rightarrow> if int (ms_n_exc s') = int 1 - 1 then Some s' else merge_outer 1 [] s')"
    by (rule merge_outer_Cons_run [OF e0])
  also have "\<dots> = Some ?s0" unfolding inner using cnt by simp
  finally have "merge_outer 1 [0..<1] ?s0 = Some ?s0" .
  then have "merge_pass [\<alpha>] [\<beta>] = Some ?s0" by (simp add: merge_pass_def)
  then show ?thesis using assms
    by (subst sasa_sum_angles.simps) (simp add: merge_init_def buried_angle_single)
qed

lemma compact_rep:
  assumes "rep_state k \<alpha> \<beta> k s" "1 \<le> k"
  shows "compact (ms_excluded s) xs = [xs ! 0]"
proof -
  have len: "length (ms_excluded s) = k" and e0: "\<not> ms_excluded s ! 0"
    and ex: "\<And>j. 1 \<le> j \<and> j < k \<Longrightarrow> ms_excluded s ! j"
    using assms(1) by (auto simp: rep_state_def)
  have up: "[0..<k] = 0 # [1..<k]" using assms(2) by (simp add: upt_conv_Cons)
  have "filter (\<lambda>i. \<not> ms_excluded s ! i) [1..<k] = []"
    using ex by (auto simp: filter_empty_conv)
  then have "filter (\<lambda>i. \<not> ms_excluded s ! i) [0..<k] = [0]"
    unfolding up using e0 by simp
  then show ?thesis by (simp add: compact_def len)
qed

lemma sasa_sum_angles_replicate:
  assumes \<alpha>: "0 < \<alpha>" "\<alpha> < pi" and k: "1 \<le> k"
  shows "sasa_sum_angles (replicate k \<alpha>) (replicate k \<beta>) = Inr (2 * pi - 2 * \<alpha>)"
proof (cases "k = 1")
  case True
  then show ?thesis using sasa_sum_angles_single [OF \<alpha>(1)] by simp
next
  case False
  then have k2: "2 \<le> k" using k by simp
  have \<alpha>le: "\<alpha> \<le> pi" using \<alpha>(2) by simp
  obtain s where s: "merge_pass (replicate k \<alpha>) (replicate k \<beta>) = Some s"
      and st: "rep_state k \<alpha> \<beta> k s"
    using rep_pass [OF \<alpha>(1) \<alpha>le k2] by blast
  have ov: "ms_n_overlap s \<noteq> 0" using st k2 by (simp add: rep_state_def)
  have ca: "compact (ms_excluded s) (ms_a s) = [\<alpha>]"
    using compact_rep [OF st k] st by (simp add: rep_state_def)
  obtain m :: int where "ms_b s ! 0 = \<beta> + 2 * pi * real_of_int m"
    using st by (auto simp: rep_state_def)
  then have cb: "compact (ms_excluded s) (ms_b s) = [\<beta> + 2 * pi * real_of_int m]"
    using compact_rep [OF st k] by simp
  have pos: "list_all (\<lambda>i. replicate k \<alpha> ! i > 0) [0..<length (replicate k \<alpha>)]"
    using \<alpha>(1) by (simp add: list_all_iff)
  have "sasa_sum_angles (replicate k \<alpha>) (replicate k \<beta>)
          = sasa_sum_angles [\<alpha>] [\<beta> + 2 * pi * real_of_int m]"
    using pos s ov by (subst sasa_sum_angles.simps) (simp add: ca cb)
  then show ?thesis using sasa_sum_angles_single [OF \<alpha>(1)] by simp
qed


lemma norm_bj_zero: "norm_bj 0 0 = 0"
  using pi_gt_zero by (subst norm_bj.simps) simp

lemma ex_merge_pass:
  "merge_pass [1, 1] [0, 0] =
     Some \<lparr>ms_a = [1, 0], ms_b = [0, 0], ms_excluded = [False, True],
           ms_n_exc = 1, ms_n_overlap = 1\<rparr>"
proof -
  have up: "[0..<2] = [0, Suc 0]" by (simp add: upt_rec)
  have "(1::real) < pi" using pi_ge_two by linarith
  then show ?thesis
    by (simp add: merge_pass_def merge_init_def up merge_outer.simps merge_inner.simps
          merge_pair_def norm_bj_zero Let_def)
qed

text \<open>
  Claim C9. \<^verbatim>\<open>sasa_sum_angles\<close> terminates on every pair of arrays: a pass that counted
  an overlap leaves strictly fewer intervals for the recursive call (every merge
  excludes one interval, and only the intervals that are not excluded are passed on),
  so at most \<open>n\<close> nested recursive calls are made for \<open>n\<close> intervals: the recursion
  bounded by \<open>fuel \<ge> n\<close> calls never runs out and returns the function's result.
\<close>

theorem sasa_sum_angles_terminates:
  "(merge_pass a b = Some s \<longrightarrow> ms_n_overlap s \<noteq> 0 \<longrightarrow>
      length (compact (ms_excluded s) (ms_a s)) < length a) \<and>
   (length a \<le> fuel \<longrightarrow> sasa_sum_angles_fuel fuel a b = Some (sasa_sum_angles a b))"
  using merge_pass_decreases(1) [of a b s] sasa_sum_angles_fuel_enough [of a fuel b]
  by blast

theorem sasa_sum_angles_terminates_witness:
  "merge_pass [1, 1] [0, 0] =
     Some \<lparr>ms_a = [1, 0], ms_b = [0, 0], ms_excluded = [False, True],
           ms_n_exc = 1, ms_n_overlap = 1\<rparr> \<and>
   length (compact [False, True] [1, 0 :: real]) < length [1, 1 :: real] \<and>
   length [1, 1 :: real] \<le> 2 \<and>
   sasa_sum_angles_fuel 2 [1, 1] [0, 0] = Some (Inr (2 * pi - 2))"
proof -
  have "(1::real) < pi" using pi_ge_two by linarith
  then have "sasa_sum_angles (replicate 2 1) (replicate 2 0) = Inr (2 * pi - 2 * 1)"
    by (intro sasa_sum_angles_replicate) simp_all
  then have v: "sasa_sum_angles [1, 1] [0, 0] = Inr (2 * pi - 2)"
    by (simp add: numeral_2_eq_2)
  show ?thesis
    using sasa_sum_angles_terminates [of "[1, 1]" "[0, 0]"
        "\<lparr>ms_a = [1, 0], ms_b = [0, 0], ms_excluded = [False, True],
           ms_n_exc = 1, ms_n_overlap = 1\<rparr>" 2] ex_merge_pass v
    by simp
qed

text \<open>
  Claim C7. \<^verbatim>\<open>sasa_sum_angles\<close> applied to one interval \<open>[\<beta> - \<alpha>, \<beta> + \<alpha>]\<close> with
  \<open>0 < \<alpha> < pi\<close> returns \<open>2 * pi - 2 * \<alpha>\<close>, and so it does applied to the same interval
  repeated \<open>k\<close> times, for every \<open>k \<ge> 1\<close>.
\<close>

theorem sasa_sum_angles_idempotent:
  assumes "0 < \<alpha>" and "\<alpha> < pi"
  shows "sasa_sum_angles [\<alpha>] [\<beta>] = Inr (2 * pi - 2 * \<alpha>) \<and>
         (\<forall>k\<ge>1. sasa_sum_angles (replicate k \<alpha>) (replicate k \<beta>) = Inr (2 * pi - 2 * \<alpha>))"
  using sasa_sum_angles_single [OF assms(1)] sasa_sum_angles_replicate [OF assms]
  by blast

theorem sasa_sum_angles_idempotent_witness:
  "(0::real) < 1 \<and> (1::real) < pi \<and>
   sasa_sum_angles [1] [0] = Inr (2 * pi - 2) \<and>
   sasa_sum_angles [1, 1, 1] [0, 0, 0] = Inr (2 * pi - 2)"
proof -
  have lt: "(1::real) < pi" using pi_ge_two by linarith
  have pos: "(0::real) < 1" by simp
  have r3: "replicate 3 (x::real) = [x, x, x]" for x by (simp add: numeral_3_eq_3)
  have "(1::nat) \<le> 3" by simp
  then have "sasa_sum_angles (replicate 3 1) (replicate 3 0) = Inr (2 * pi - 2 * 1)"
    using sasa_sum_angles_idempotent [OF pos lt, of 0] by blast
  moreover have "sasa_sum_angles [1] [0] = Inr (2 * pi - 2 * 1)"
    using sasa_sum_angles_idempotent [OF pos lt, of 0] by blast
  ultimately show ?thesis using lt by (simp add: r3)
qed

section \<open>Properties of \<^verbatim>\<open>sasa_add_slice_area\<close>\<close>

lemma fold_update_sum:
  fixes sasa :: "real list"
  assumes "i < length sasa"
  shows "(\<forall>k<m. idx ! k < length sasa) \<Longrightarrow>
     fold (\<lambda>k s. s[idx ! k := s ! (idx ! k) + f k]) [0..<m] sasa ! i
       = sasa ! i + sum f {k. k < m \<and> idx ! k = i}
     \<and> length (fold (\<lambda>k s. s[idx ! k := s ! (idx ! k) + f k]) [0..<m] sasa) = length sasa"
proof (induction m)
  case 0
  show ?case by simp
next
  case (Suc m)
  let ?s = "fold (\<lambda>k s. s[idx ! k := s ! (idx ! k) + f k]) [0..<m] sasa"
  have IH: "?s ! i = sasa ! i + sum f {k. k < m \<and> idx ! k = i}" "length ?s = length sasa"
    using Suc by simp_all
  have fin: "finite {k. k < m \<and> idx ! k = i}" by simp
  show ?case
  proof (cases "idx ! m = i")
    case True
    have "{k. k < Suc m \<and> idx ! k = i} = insert m {k. k < m \<and> idx ! k = i}"
      using True by (auto simp: less_Suc_eq)
    then have "sum f {k. k < Suc m \<and> idx ! k = i} = f m + sum f {k. k < m \<and> idx ! k = i}"
      using fin by simp
    then show ?thesis using True IH assms by simp
  next
    case False
    have "{k. k < Suc m \<and> idx ! k = i} = {k. k < m \<and> idx ! k = i}"
      using False by (auto simp: less_Suc_eq)
    then show ?thesis using False IH by simp
  qed
qed

lemma filter_upt_position:
  assumes "i < n" "P i"
  shows "length (filter P [0..<i]) < length (filter P [0..<n])"
    and "filter P [0..<n] ! length (filter P [0..<i]) = i"
proof -
  have split: "[0..<n] = [0..<i] @ i # [Suc i..<n]"
    using assms(1) by (metis le0 le_add_diff_inverse less_imp_le_nat upt_add_eq_append upt_conv_Cons)
  have eq: "filter P [0..<n] = filter P [0..<i] @ i # filter P [Suc i..<n]"
    by (subst split) (simp add: assms(2))
  show "length (filter P [0..<i]) < length (filter P [0..<n])" by (simp add: eq)
  show "filter P [0..<n] ! length (filter P [0..<i]) = i" by (simp add: eq nth_append)
qed

lemma filter_upt_index_set:
  "{k. k < length (filter P [0..<n]) \<and> filter P [0..<n] ! k = i}
     = (if i < n \<and> P i then {length (filter P [0..<i])} else {})"
proof (cases "i < n \<and> P i")
  case True
  define idx where "idx = filter P [0..<n]"
  define k0 where "k0 = length (filter P [0..<i])"
  have k0: "k0 < length idx" "idx ! k0 = i"
    using filter_upt_position [of i n P] True by (simp_all add: idx_def k0_def)
  have d: "distinct idx" by (simp add: idx_def)
  have "{k. k < length idx \<and> idx ! k = i} = {k0}"
  proof (intro equalityI subsetI)
    fix k assume "k \<in> {k. k < length idx \<and> idx ! k = i}"
    then have k: "k < length idx" "idx ! k = idx ! k0" using k0(2) by simp_all
    have "k = k0" using nth_eq_iff_index_eq [OF d k(1) k0(1)] k(2) by blast
    then show "k \<in> {k0}" by simp
  next
    fix k assume "k \<in> {k0}"
    then show "k \<in> {k. k < length idx \<and> idx ! k = i}" using k0 by simp
  qed
  then show ?thesis using True unfolding idx_def k0_def by (simp only: if_True simp_thms)
next
  case False
  define idx where "idx = filter P [0..<n]"
  have "idx ! k \<noteq> i" if "k < length idx" for k
  proof
    assume e: "idx ! k = i"
    have "idx ! k \<in> set idx" using that by (rule nth_mem)
    then have "i \<in> set idx" using e by simp
    then show False using False by (simp add: idx_def)
  qed
  then have "{k. k < length idx \<and> idx ! k = i} = {}" by blast
  then show ?thesis using False unfolding idx_def by (simp only: if_False simp_thms)
qed

lemma add_areas_nth:
  assumes len: "length sasa = lr_n_atoms lr" and i: "i < lr_n_atoms lr"
  shows "add_areas (locate_atoms z lr) exposed_arc sasa ! i =
     sasa ! i + (if in_slice_test z lr i
                 then exposed_arc ! the (sl_xdi (locate_atoms z lr) i)
                        * slice_radius z lr i * slice_DR z lr i
                 else 0)"
    and "length (add_areas (locate_atoms z lr) exposed_arc sasa) = length sasa"
proof -
  let ?P = "in_slice_test z lr" and ?n = "lr_n_atoms lr"
  let ?idx = "filter ?P [0..<?n]"
  let ?f = "\<lambda>k. exposed_arc ! k * map (slice_radius z lr) ?idx ! k * map (slice_DR z lr) ?idx ! k"
  have rng: "\<forall>k<length ?idx. ?idx ! k < length sasa"
  proof (intro allI impI)
    fix k assume "k < length ?idx"
    then have "?idx ! k \<in> set ?idx" by (rule nth_mem)
    then show "?idx ! k < length sasa" using len by simp
  qed
  have il: "i < length sasa" using len i by simp
  have unf: "add_areas (locate_atoms z lr) exposed_arc sasa
     = fold (\<lambda>k s. s[?idx ! k := s ! (?idx ! k) + ?f k]) [0..<length ?idx] sasa"
    by (simp add: add_areas_def locate_atoms_eq located_def Let_def)
  note main = fold_update_sum [OF il, of "length ?idx" ?idx ?f] 
  have val: "add_areas (locate_atoms z lr) exposed_arc sasa ! i
      = sasa ! i + sum ?f {k. k < length ?idx \<and> ?idx ! k = i}"
    and l: "length (add_areas (locate_atoms z lr) exposed_arc sasa) = length sasa"
    using main rng unfolding unf by blast+
  show "length (add_areas (locate_atoms z lr) exposed_arc sasa) = length sasa" by (rule l)
  show "add_areas (locate_atoms z lr) exposed_arc sasa ! i =
     sasa ! i + (if in_slice_test z lr i
                 then exposed_arc ! the (sl_xdi (locate_atoms z lr) i)
                        * slice_radius z lr i * slice_DR z lr i
                 else 0)"
  proof (cases "?P i")
    case True
    let ?k0 = "length (filter ?P [0..<i])"
    have k0: "?k0 < length ?idx" "?idx ! ?k0 = i"
      using filter_upt_position [of i ?n ?P] i True by simp_all
    have "sum ?f {k. k < length ?idx \<and> ?idx ! k = i} = ?f ?k0"
      using True i by (simp add: filter_upt_index_set)
    moreover have "the (sl_xdi (locate_atoms z lr) i) = ?k0"
      using True i by (simp add: locate_atoms_eq located_def Let_def)
    ultimately show ?thesis using val True k0 by simp
  next
    case False
    then have "sum ?f {k. k < length ?idx \<and> ?idx ! k = i} = 0"
      by (simp add: filter_upt_index_set)
    then show ?thesis using val False by simp
  qed
qed


lemma sasa_sum_angles_nil: "sasa_sum_angles [] [] = Inr (2 * pi)"
  by (subst sasa_sum_angles.simps)
     (simp add: merge_pass_def merge_init_def buried_angle_def)

text \<open>
  Claim C6. For a slice centre \<open>z\<close> and an atom \<open>i\<close> with \<open>d = |z_i - z| < R_i\<close>, the call
  \<^verbatim>\<open>sasa_add_slice_area(z, lr)\<close> adds \<open>\<theta> * r * DR\<close> to \<open>sasa[i]\<close>, where
  \<open>r = sqrt (R_i^2 - d^2)\<close>, \<open>DR = (R_i / r) * (delta/2 + min (delta/2) (R_i - d))\<close> and \<open>\<theta>\<close> is
  the exposed arc that \<^verbatim>\<open>sasa_exposed_arcs\<close> computed for the atom's position \<open>xdi[i]\<close>
  in the slice; an atom with \<open>d \<ge> R_i\<close> gets nothing added.
\<close>

theorem slice_area_contribution:
  assumes "length (lr_sasa lr) = lr_n_atoms lr" and "i < lr_n_atoms lr"
    and "slice_exposed_arcs z lr = Inr exposed_arc"
  shows "\<exists>sasa'. sasa_add_slice_area z lr = Inr sasa' \<and> length sasa' = lr_n_atoms lr \<and>
     sasa' ! i = lr_sasa lr ! i +
       (let R = lr_radii lr ! i;
            d = \<bar>coord_z (lr_xyz lr) i - z\<bar>;
            r = sqrt (R\<^sup>2 - d\<^sup>2);
            DR = R / r * (lr_delta lr / 2 + min (lr_delta lr / 2) (R - d));
            \<theta> = exposed_arc ! the (sl_xdi (locate_atoms z lr) i)
        in if d < R then \<theta> * r * DR else 0)"
proof -
  have run: "sasa_add_slice_area z lr
      = Inr (add_areas (locate_atoms z lr) exposed_arc (lr_sasa lr))"
    using assms(3) by (simp add: sasa_add_slice_area_def)
  have r: "slice_radius z lr i
      = sqrt ((lr_radii lr ! i)\<^sup>2 - \<bar>coord_z (lr_xyz lr) i - z\<bar>\<^sup>2)"
    by (simp add: slice_radius_def power2_eq_square)
  have dr: "slice_DR z lr i = lr_radii lr ! i / slice_radius z lr i *
       (lr_delta lr / 2 + min (lr_delta lr / 2) (lr_radii lr ! i - \<bar>coord_z (lr_xyz lr) i - z\<bar>))"
    by (simp add: slice_DR_def min_def)
  show ?thesis
    unfolding run Let_def
    using add_areas_nth [OF assms(1,2), of z exposed_arc] assms(1)
    by (simp add: in_slice_test_def dr r)
qed

lemma ex_lr1_locate:
  "locate_atoms 0 ex_lr1 =
     \<lparr>sl_x = [0], sl_y = [0], sl_r = [1], sl_DR = [2], sl_idx = [0],
      sl_xdi = [0 \<mapsto> 0], sl_in_slice = [True], sl_n_slice = 1\<rparr>"
  by (simp add: locate_atoms_def ex_lr1_def slice_empty_def locate_step_def
        coord_x_def coord_y_def coord_z_def Let_def)

lemma ex_lr1_arcs: "slice_exposed_arcs 0 ex_lr1 = Inr [2 * pi]"
proof -
  have nb: "slice_neighbours ex_lr1 s 0 = []" if "sl_idx s = [0]" for s
    using that by (simp add: slice_neighbours_def ex_lr1_def)
  have "arcs_atom [0] [0] [1] [[]] [0] 0 ([0], [False]) = Inr ([2 * pi], [False])"
    by (simp add: arcs_atom_def Let_def sasa_sum_angles_dbl_def sasa_sum_angles_nil)
  then have "sasa_exposed_arcs 1 [0] [0] 0 [1] [0] [[]] [0] = Inr [2 * pi]"
    by (simp add: sasa_exposed_arcs_def)
  then show ?thesis
    by (simp add: slice_exposed_arcs_def Let_def ex_lr1_locate nb)
qed

theorem slice_area_contribution_witness:
  "length (lr_sasa ex_lr1) = lr_n_atoms ex_lr1 \<and> 0 < lr_n_atoms ex_lr1 \<and>
   slice_exposed_arcs 0 ex_lr1 = Inr [2 * pi] \<and>
   (\<exists>sasa'. sasa_add_slice_area 0 ex_lr1 = Inr sasa' \<and> length sasa' = 1 \<and>
      sasa' ! 0 = 4 * pi)"
proof -
  have h1: "length (lr_sasa ex_lr1) = lr_n_atoms ex_lr1" by (simp add: ex_lr1_def)
  have h2: "0 < lr_n_atoms ex_lr1" by (simp add: ex_lr1_def)
  have xdi: "the (sl_xdi (locate_atoms 0 ex_lr1) 0) = 0" by (simp add: ex_lr1_locate)
  show ?thesis
    using slice_area_contribution [OF h1 h2 ex_lr1_arcs] h1 h2 ex_lr1_arcs
    by (simp add: xdi Let_def) (simp add: ex_lr1_def coord_z_def)
qed

section \<open>Properties of the slice loop\<close>


























section \<open>The half-width of a circle that touches from inside\<close>

lemma ex_lr_locate:
  "locate_atoms 0 ex_lr =
     \<lparr>sl_x = [0, 1], sl_y = [0, 0], sl_r = [2, 1], sl_DR = [4, 3], sl_idx = [0, 1],
      sl_xdi = [0 \<mapsto> 0, 1 \<mapsto> 1], sl_in_slice = [True, True], sl_n_slice = 2\<rparr>"
proof -
  have up: "[0..<2] = [0, Suc 0]" by (simp add: upt_rec)
  have "sqrt 4 = 2" using real_sqrt_abs [of 2] by simp
  then show ?thesis
    by (simp add: locate_atoms_def ex_lr_def ex_xyz_def slice_empty_def locate_step_def up
          coord_x_def coord_y_def coord_z_def Let_def numeral_2_eq_2)
qed

lemma ex_lr_contacts: "sasa_get_contacts ex_xyz [2, 1] = ([[1], [0]], [1, 1])"
proof -
  have up: "[0..<2] = [0, Suc 0]" by (simp add: upt_rec)
  show ?thesis
    by (simp add: sasa_get_contacts_def coord_n_def ex_xyz_def up contact_pair_def Let_def
          coord_x_def coord_y_def coord_z_def)
qed

lemma ex_lr_alpha: "arc_pair [0, 1] [0, 0] [2, 1] 0 (Suc 0) = ArcAdd (Some 0) 0"
  by (simp add: arc_pair_def Let_def arc_alpha_def acos_c_def atan2_def)

lemma ex_lr_assert: "sasa_sum_angles_dbl [Some 0] [0] = Inl AssertionFailed"
  by (simp add: sasa_sum_angles_dbl_def sasa_sum_angles.simps)

lemma ex_lr_arcs: "slice_exposed_arcs 0 ex_lr = Inl AssertionFailed"
proof -
  have up: "[0..<2] = [0, Suc 0]" by (simp add: upt_rec)
  have nb0: "slice_neighbours ex_lr s 0 = [Suc 0]"
    if "sl_idx s = [0, Suc 0]" "sl_in_slice s = [True, True]" "sl_xdi s = [0 \<mapsto> 0, Suc 0 \<mapsto> Suc 0]" for s
    using that by (simp add: slice_neighbours_def ex_lr_def)
  have nb1: "slice_neighbours ex_lr s (Suc 0) = [0]"
    if "sl_idx s = [0, Suc 0]" "sl_in_slice s = [True, True]" "sl_xdi s = [0 \<mapsto> 0, Suc 0 \<mapsto> Suc 0]" for s
    using that by (simp add: slice_neighbours_def ex_lr_def)
  have "arcs_atom [0, 1] [0, 0] [2, 1] [[Suc 0], [0]] [Suc 0, Suc 0] 0 ([0, 0], [False, False])
          = Inl AssertionFailed"
    by (simp add: arcs_atom_def Let_def ex_lr_alpha ex_lr_assert)
  then have "sasa_exposed_arcs 2 [0, 1] [0, 0] 0 [2, 1] [0, 0] [[Suc 0], [0]] [Suc 0, Suc 0]
          = Inl AssertionFailed"
    by (simp add: sasa_exposed_arcs_def up numeral_2_eq_2)
  moreover have "replicate 2 (0::real) = [0, 0]" by (simp add: numeral_2_eq_2)
  ultimately show ?thesis
    by (simp add: slice_exposed_arcs_def Let_def ex_lr_locate up nb0 nb1)
qed

lemma ex_lr_params: "lr_params [0, 0] ex_xyz [2, 1] 0 4 = ex_lr"
proof -
  have up: "[0..<2] = [0, Suc 0]" by (simp add: upt_rec)
  have i: "lr_init [0, 0] ex_xyz [2, 1] 0 =
       \<lparr>li_radii = [2, 1], li_max_z = 0, li_min_z = 0, li_sasa = [0, 0], li_max_r = 2\<rparr>"
    by (simp add: lr_init_def coord_n_def ex_xyz_def up lr_init_step_def Let_def coord_z_def)
  show ?thesis
    by (simp add: lr_params_def Let_def i ex_lr_contacts ex_lr_def)
       (simp add: coord_n_def ex_xyz_def)
qed

text \<open>
  Claim C8 says that every half-width \<open>\<alpha>\<close> inserted by the proper-intersection branch of
  \<^verbatim>\<open>sasa_exposed_arcs\<close> is strictly positive, so that the assertion \<open>a[i] > 0\<close> of
  \<^verbatim>\<open>sasa_sum_angles\<close> never fails. The code does not keep this: for the atoms of
  \<open>ex_xyz\<close> with radii 2 and 1 and \<open>delta = 4\<close> the only slice is \<open>z = 0\<close>, where the circles have
  radii 2 and 1 at distance \<open>d = 1\<close>. Neither \<open>d + ri < rj\<close> nor \<open>d + rj < ri\<close> holds
  (\<open>d + rj = ri\<close>), the branch stores \<open>\<alpha> = acos 1 = 0\<close>, and the assertion fails.
\<close>

theorem tangent_circle_fails_assertion:
  "arc_pair [0, 1] [0, 0] [2, 1] 0 1 = ArcAdd (Some 0) 0 \<and>
   sasa_add_slice_area 0 ex_lr = Inl AssertionFailed \<and>
   sasalib_lee_richards [0, 0] ex_xyz [2, 1] 0 4 1 = Some (Inl AssertionFailed)"
proof -
  have a: "sasa_add_slice_area 0 ex_lr = Inl AssertionFailed"
    by (simp add: sasa_add_slice_area_def ex_lr_arcs)
  have upd: "ex_lr\<lparr>lr_sasa := [0, 0]\<rparr> = ex_lr" by (simp add: ex_lr_def)
  have "slice_loop (\<lambda>z s. sasa_add_slice_area z (ex_lr\<lparr>lr_sasa := s\<rparr>)) 2 4 0 [0, 0]
          = Some (Inl AssertionFailed)"
    by (subst slice_loop.simps) (simp add: upd a)
  moreover have "lr_max_z ex_lr = 2" "lr_min_z ex_lr = 0" "lr_sasa ex_lr = [0, 0]"
    by (simp_all add: ex_lr_def)
  moreover have "coord_n ex_xyz \<noteq> 0" by (simp add: coord_n_def ex_xyz_def)
  ultimately have "sasalib_lee_richards [0, 0] ex_xyz [2, 1] 0 4 1 = Some (Inl AssertionFailed)"
    by (simp add: sasalib_lee_richards_def ex_lr_params Let_def)
  then show ?thesis using a ex_lr_alpha by simp
qed

section \<open>Disjoint arcs on the circle\<close>















section \<open>The range of \<^verbatim>\<open>sasa_sum_angles\<close>\<close>
















section \<open>Non-negative areas\<close>

lemma fold_err_rule:
  assumes "fold_err f xs s = Inr s'" and "P s"
    and "\<And>x t t'. P t \<Longrightarrow> x \<in> set xs \<Longrightarrow> f x t = Inr t' \<Longrightarrow> P t'"
  shows "P s'"
  using assms
proof (induction xs arbitrary: s)
  case Nil
  then show ?case by simp
next
  case (Cons x xs)
  obtain s1 where s1: "f x s = Inr s1" "fold_err f xs s1 = Inr s'"
    using Cons.prems(1) by (cases "f x s") simp_all
  have "x \<in> set (x # xs)" by simp
  then have P1: "P s1" using Cons.prems(3) [OF Cons.prems(2) _ s1(1)] by blast
  have step: "P t'" if "P t" "y \<in> set xs" "f y t = Inr t'" for t y t'
    using Cons.prems(3) [of t y t'] that by simp
  show ?case using s1(2) P1 step by (rule Cons.IH)
qed























section \<open>The neighbour index as one loop over atom pairs\<close>

subsection \<open>Loops that may fail\<close>

lemma fold_err_append:
  "fold_err f (xs @ ys) s = (case fold_err f xs s of Inl e \<Rightarrow> Inl e | Inr t \<Rightarrow> fold_err f ys t)"
  by (induction xs arbitrary: s) (simp_all split: sum.splits)

lemma fold_err_map: "fold_err f (map h xs) s = fold_err (\<lambda>x. f (h x)) xs s"
  by (induction xs arbitrary: s) (simp_all split: sum.splits)

lemma fold_err_concat:
  "fold_err (\<lambda>x. fold_err g (L x)) xs s = fold_err g (concat (map L xs)) s"
  by (induction xs arbitrary: s) (simp_all add: fold_err_append split: sum.splits)

lemma fold_err_upt_rule:
  assumes "J 0 s"
    and "\<And>m t. m < n \<Longrightarrow> J m t \<Longrightarrow> \<exists>t'. f m t = Inr t' \<and> J (Suc m) t'"
  shows "\<exists>s'. fold_err f [0..<n] s = Inr s' \<and> J n s'"
  using assms(2)
proof (induction n)
  case 0
  then show ?case using assms(1) by simp
next
  case (Suc n)
  have step: "\<exists>t'. f m t = Inr t' \<and> J (Suc m) t'" if "m < n" "J m t" for m t
  proof -
    have "m < Suc n" using that(1) by simp
    then show ?thesis using that(2) by (rule Suc.prems)
  qed
  have "\<exists>s'. fold_err f [0..<n] s = Inr s' \<and> J n s'"
  proof (rule Suc.IH)
    fix m t
    assume "m < n" "J m t"
    then show "\<exists>t'. f m t = Inr t' \<and> J (Suc m) t'" by (rule step)
  qed
  then obtain s1 where s1: "fold_err f [0..<n] s = Inr s1" "J n s1" by blast
  have "n < Suc n" by simp
  then have "\<exists>t'. f n s1 = Inr t' \<and> J (Suc n) t'" using s1(2) by (rule Suc.prems)
  then obtain t' where t': "f n s1 = Inr t'" "J (Suc n) t'" by blast
  show ?case using s1(1) t' by (simp add: fold_err_append)
qed

lemma fold_err_prefix_rule:
  assumes "I [] s"
    and "\<And>ys x zs t. xs = ys @ x # zs \<Longrightarrow> I ys t \<Longrightarrow> \<exists>t'. f x t = Inr t' \<and> I (ys @ [x]) t'"
  shows "\<exists>s'. fold_err f xs s = Inr s' \<and> I xs s'"
  using assms(2)
proof (induction xs rule: rev_induct)
  case Nil
  then show ?case using assms(1) by simp
next
  case (snoc x xs)
  have step: "\<exists>t'. f y t = Inr t' \<and> I (ys @ [y]) t'" if "xs = ys @ y # zs" "I ys t" for ys y zs t
  proof -
    have "xs @ [x] = ys @ y # (zs @ [x])" using that(1) by simp
    then show ?thesis using that(2) by (rule snoc.prems)
  qed
  have "\<exists>s'. fold_err f xs s = Inr s' \<and> I xs s'"
  proof (rule snoc.IH)
    fix ys y zs t
    assume "xs = ys @ y # zs" "I ys t"
    then show "\<exists>t'. f y t = Inr t' \<and> I (ys @ [y]) t'" by (rule step)
  qed
  then obtain s1 where s1: "fold_err f xs s = Inr s1" "I xs s1" by blast
  have "xs @ [x] = xs @ x # []" by simp
  then have "\<exists>t'. f x s1 = Inr t' \<and> I (xs @ [x]) t'" using s1(2) by (rule snoc.prems)
  then obtain t' where t': "f x s1 = Inr t'" "I (xs @ [x]) t'" by blast
  show ?case using s1(1) t' by (simp add: fold_err_append)
qed

subsection \<open>The sequence of atom pairs tested\<close>

text \<open>The pairs \<open>(ia, ja)\<close> that the four nested loops of \<^verbatim>\<open>nb_fill_list\<close> and
  \<^verbatim>\<open>nb_calc_cell_pair\<close> reach, in the order of the loops.\<close>

definition cell_pairs :: "cell list \<Rightarrow> nat \<Rightarrow> nat \<Rightarrow> (nat \<times> nat) list" where
  "cell_pairs cells ic jc =
     concat (map (\<lambda>i. map (\<lambda>j. (cell_atom (cells ! ic) ! i, cell_atom (cells ! jc) ! j))
                         [(if ic = jc then i + 1 else 0)..<length (cell_atom (cells ! jc))])
                 [0..<length (cell_atom (cells ! ic))])"

definition pair_list :: "cell_list \<Rightarrow> (nat \<times> nat) list" where
  "pair_list c =
     concat (map (\<lambda>ic. concat (map (\<lambda>jc. cell_pairs (cl_cell c) ic (cell_nb (cl_cell c ! ic) ! jc))
                                   [0..<length (cell_nb (cl_cell c ! ic))]))
                 [0..<nat (cl_n c)])"

lemma nb_calc_cell_pair_flat:
  "nb_calc_cell_pair v r cells ic jc =
     fold_err (\<lambda>p. nb_check_pair v r (fst p) (snd p)) (cell_pairs cells ic jc)"
proof
  fix adj
  have inner: "fold_err (\<lambda>j. nb_check_pair v r a (B ! j)) js =
      fold_err (\<lambda>p. nb_check_pair v r (fst p) (snd p)) (map (\<lambda>j. (a, B ! j)) js)" for a B js
    by (rule ext) (simp add: fold_err_map)
  show "nb_calc_cell_pair v r cells ic jc adj =
     fold_err (\<lambda>p. nb_check_pair v r (fst p) (snd p)) (cell_pairs cells ic jc) adj"
    unfolding nb_calc_cell_pair_def cell_pairs_def inner
    by (rule fold_err_concat)
qed

lemma nb_fill_list_flat:
  "nb_fill_list adj c v r = fold_err (\<lambda>p. nb_check_pair v r (fst p) (snd p)) (pair_list c) adj"
  unfolding nb_fill_list_def pair_list_def nb_calc_cell_pair_flat fold_err_concat ..

lemma pairs_mem_gen:
  "(a, b) \<in> set (concat (map (\<lambda>i. map (\<lambda>j. (A ! i, B ! j)) [lo i..<lb]) [0..<la])) \<longleftrightarrow>
     (\<exists>i<la. \<exists>j<lb. lo i \<le> j \<and> a = A ! i \<and> b = B ! j)"
proof -
  have "(a, b) \<in> set (concat (map (\<lambda>i. map (\<lambda>j. (A ! i, B ! j)) [lo i..<lb]) [0..<la])) \<longleftrightarrow>
     (\<exists>i\<in>{0..<la}. \<exists>j\<in>{lo i..<lb}. a = A ! i \<and> b = B ! j)"
    by (simp add: image_iff)
  also have "\<dots> \<longleftrightarrow> (\<exists>i<la. \<exists>j<lb. lo i \<le> j \<and> a = A ! i \<and> b = B ! j)"
    by (simp add: Bex_def) blast
  finally show ?thesis .
qed

lemma cell_pairs_mem:
  "(a, b) \<in> set (cell_pairs cells ic jc) \<longleftrightarrow>
     (\<exists>i < length (cell_atom (cells ! ic)). \<exists>j < length (cell_atom (cells ! jc)).
        (ic = jc \<longrightarrow> i < j) \<and> a = cell_atom (cells ! ic) ! i \<and> b = cell_atom (cells ! jc) ! j)"
  unfolding cell_pairs_def pairs_mem_gen
  by (cases "ic = jc") (simp_all add: Suc_le_eq)

lemma concat_map_upt_mem:
  "x \<in> set (concat (map F [0..<n])) \<longleftrightarrow> (\<exists>i<n. x \<in> set (F i))"
  by (simp add: Bex_def)

lemma pair_list_mem:
  "p \<in> set (pair_list c) \<longleftrightarrow>
     (\<exists>ic < nat (cl_n c). \<exists>jc < length (cell_nb (cl_cell c ! ic)).
        p \<in> set (cell_pairs (cl_cell c) ic (cell_nb (cl_cell c ! ic) ! jc)))"
  unfolding pair_list_def concat_map_upt_mem ..

subsection \<open>The contact test\<close>

text \<open>The squared centre distance \<open>dx*dx + dy*dy + dz*dz\<close> of line 337 of \<^verbatim>\<open>nb.c\<close> and
  line 435 of \<^verbatim>\<open>sasa_lr.c\<close>, the test made there, and the centre distance itself.\<close>

definition dist2 :: "coord \<Rightarrow> nat \<Rightarrow> nat \<Rightarrow> real" where
  "dist2 v i j =
     (coord_x v j - coord_x v i) * (coord_x v j - coord_x v i) +
     (coord_y v j - coord_y v i) * (coord_y v j - coord_y v i) +
     (coord_z v j - coord_z v i) * (coord_z v j - coord_z v i)"

definition in_contact :: "coord \<Rightarrow> real list \<Rightarrow> nat \<Rightarrow> nat \<Rightarrow> bool" where
  "in_contact v radii i j \<longleftrightarrow> dist2 v i j < (radii ! i + radii ! j) * (radii ! i + radii ! j)"

definition distance :: "coord \<Rightarrow> nat \<Rightarrow> nat \<Rightarrow> real" where
  "distance v i j = sqrt (dist2 v i j)"

lemma dist2_sym: "dist2 v i j = dist2 v j i"
  unfolding dist2_def by (simp add: algebra_simps)

lemma in_contact_sym: "in_contact v r i j \<longleftrightarrow> in_contact v r j i"
  unfolding in_contact_def by (simp add: dist2_sym [of v i j] add.commute)

lemma dist2_nonneg: "0 \<le> dist2 v i j"
  unfolding dist2_def by simp

lemma in_contact_distance:
  assumes "0 < radii ! i + radii ! j"
  shows "in_contact v radii i j \<longleftrightarrow> distance v i j < radii ! i + radii ! j"
proof -
  define R where "R = radii ! i + radii ! j"
  have R: "0 < R" using assms by (simp add: R_def)
  have "sqrt (dist2 v i j) < R \<longleftrightarrow> sqrt (dist2 v i j) < sqrt (R * R)"
    using R by simp
  also have "\<dots> \<longleftrightarrow> dist2 v i j < R * R"
    by (rule real_sqrt_less_iff)
  finally show ?thesis
    unfolding in_contact_def distance_def R_def by simp
qed

lemma axis_le_dist2:
  "(coord_x v j - coord_x v i) * (coord_x v j - coord_x v i) \<le> dist2 v i j"
  "(coord_y v j - coord_y v i) * (coord_y v j - coord_y v i) \<le> dist2 v i j"
  "(coord_z v j - coord_z v i) * (coord_z v j - coord_z v i) \<le> dist2 v i j"
  unfolding dist2_def by simp_all

lemma nb_check_pair_eq:
  "nb_check_pair v r a b adj =
     (if a = b then Inl AssertionFailed
      else if in_contact v r a b
           then nb_add_pair adj a b (coord_x v b - coord_x v a) (coord_y v b - coord_y v a)
           else Inr adj)"
proof -
  define cut2 where "cut2 = (r ! a + r ! b) * (r ! a + r ! b)"
  have prune: "\<not> in_contact v r a b"
    if "(coord_x v b - coord_x v a) * (coord_x v b - coord_x v a) > cut2 \<or>
        (coord_y v b - coord_y v a) * (coord_y v b - coord_y v a) > cut2 \<or>
        (coord_z v b - coord_z v a) * (coord_z v b - coord_z v a) > cut2"
  proof -
    have "cut2 < dist2 v a b"
      using that axis_le_dist2 [of v b a] by linarith
    then show ?thesis unfolding in_contact_def cut2_def by simp
  qed
  show ?thesis
    unfolding nb_check_pair_def Let_def
    using prune unfolding cut2_def
    by (simp add: in_contact_def dist2_def)
qed

subsection \<open>The entries of the adjacency lists\<close>

text \<open>Entry \<open>k\<close> of atom \<open>i\<close>: the neighbour \<open>nb[i][k]\<close> with \<open>nb_xd[i][k]\<close>, \<open>nb_yd[i][k]\<close> and
  \<open>nb_xyd[i][k]\<close>.\<close>

definition adj_entries :: "freesasa_nb \<Rightarrow> nat \<Rightarrow> (nat \<times> real \<times> real \<times> real) list" where
  "adj_entries adj i =
     zip (adj_nb adj ! i) (zip (adj_nb_xd adj ! i) (zip (adj_nb_yd adj ! i) (adj_nb_xyd adj ! i)))"

definition adj_shape :: "freesasa_nb \<Rightarrow> bool" where
  "adj_shape adj \<longleftrightarrow>
     length (adj_nn adj) = adj_n adj \<and> length (adj_nb adj) = adj_n adj \<and>
     length (adj_nb_xd adj) = adj_n adj \<and> length (adj_nb_yd adj) = adj_n adj \<and>
     length (adj_nb_xyd adj) = adj_n adj \<and>
     (\<forall>i < adj_n adj.
        adj_nn adj ! i = length (adj_nb adj ! i) \<and>
        length (adj_nb_xd adj ! i) = length (adj_nb adj ! i) \<and>
        length (adj_nb_yd adj ! i) = length (adj_nb adj ! i) \<and>
        length (adj_nb_xyd adj ! i) = length (adj_nb adj ! i))"

definition sym_inv :: "freesasa_nb \<Rightarrow> bool" where
  "sym_inv adj \<longleftrightarrow>
     adj_shape adj \<and>
     (\<forall>i < adj_n adj. \<forall>e \<in> set (adj_entries adj i).
        fst e < adj_n adj \<and> fst e \<noteq> i \<and>
        snd (snd (snd e)) = sqrt (fst (snd e) * fst (snd e) + fst (snd (snd e)) * fst (snd (snd e))) \<and>
        (i, - fst (snd e), - fst (snd (snd e)), snd (snd (snd e))) \<in> set (adj_entries adj (fst e)))"

lemma nth_update2:
  assumes "a \<noteq> b" "i < length xs"
  shows "xs[a := u, b := w] ! i = (if i = b then w else if i = a then u else xs ! i)"
  using assms by (simp add: nth_list_update)

lemma nb_add_pair_fields:
  assumes "a \<noteq> b"
  shows "nb_add_pair adj a b dx dy =
     Inr (adj\<lparr>adj_nn := (adj_nn adj)[a := adj_nn adj ! a + 1, b := adj_nn adj ! b + 1],
              adj_capacity := (adj_capacity adj)
                 [a := chunk_up (adj_capacity adj ! a)
                         ((adj_nn adj)[a := adj_nn adj ! a + 1, b := adj_nn adj ! b + 1] ! a),
                  b := chunk_up (adj_capacity adj ! b)
                         ((adj_nn adj)[a := adj_nn adj ! a + 1, b := adj_nn adj ! b + 1] ! b)],
              adj_nb := (adj_nb adj)[a := adj_nb adj ! a @ [b], b := adj_nb adj ! b @ [a]],
              adj_nb_xyd := (adj_nb_xyd adj)[a := adj_nb_xyd adj ! a @ [sqrt (dx * dx + dy * dy)],
                                             b := adj_nb_xyd adj ! b @ [sqrt (dx * dx + dy * dy)]],
              adj_nb_xd := (adj_nb_xd adj)[a := adj_nb_xd adj ! a @ [dx],
                                           b := adj_nb_xd adj ! b @ [- dx]],
              adj_nb_yd := (adj_nb_yd adj)[a := adj_nb_yd adj ! a @ [dy],
                                           b := adj_nb_yd adj ! b @ [- dy]]\<rparr>)"
  using assms unfolding nb_add_pair_def Let_def by simp

lemma nb_add_pair_shape:
  assumes "a \<noteq> b" "adj_shape adj" "nb_add_pair adj a b dx dy = Inr adj'"
  shows "adj_shape adj'" "adj_n adj' = adj_n adj"
proof -
  have eq: "adj' = adj\<lparr>adj_nn := (adj_nn adj)[a := adj_nn adj ! a + 1, b := adj_nn adj ! b + 1],
              adj_capacity := (adj_capacity adj)
                 [a := chunk_up (adj_capacity adj ! a)
                         ((adj_nn adj)[a := adj_nn adj ! a + 1, b := adj_nn adj ! b + 1] ! a),
                  b := chunk_up (adj_capacity adj ! b)
                         ((adj_nn adj)[a := adj_nn adj ! a + 1, b := adj_nn adj ! b + 1] ! b)],
              adj_nb := (adj_nb adj)[a := adj_nb adj ! a @ [b], b := adj_nb adj ! b @ [a]],
              adj_nb_xyd := (adj_nb_xyd adj)[a := adj_nb_xyd adj ! a @ [sqrt (dx * dx + dy * dy)],
                                             b := adj_nb_xyd adj ! b @ [sqrt (dx * dx + dy * dy)]],
              adj_nb_xd := (adj_nb_xd adj)[a := adj_nb_xd adj ! a @ [dx],
                                           b := adj_nb_xd adj ! b @ [- dx]],
              adj_nb_yd := (adj_nb_yd adj)[a := adj_nb_yd adj ! a @ [dy],
                                           b := adj_nb_yd adj ! b @ [- dy]]\<rparr>"
    using assms(3) unfolding nb_add_pair_fields [OF assms(1)] by simp
  show "adj_n adj' = adj_n adj" unfolding eq by simp
  show "adj_shape adj'"
    using assms(2) unfolding eq adj_shape_def
    by (simp add: nth_update2 [OF assms(1)])
qed

lemma nb_add_pair_entries:
  assumes "a \<noteq> b" "adj_shape adj" "nb_add_pair adj a b dx dy = Inr adj'" "i < adj_n adj"
  shows "adj_entries adj' i =
    (if i = b then adj_entries adj b @ [(a, - dx, - dy, sqrt (dx * dx + dy * dy))]
     else if i = a then adj_entries adj a @ [(b, dx, dy, sqrt (dx * dx + dy * dy))]
     else adj_entries adj i)"
proof -
  have eq: "adj' = adj\<lparr>adj_nn := (adj_nn adj)[a := adj_nn adj ! a + 1, b := adj_nn adj ! b + 1],
              adj_capacity := (adj_capacity adj)
                 [a := chunk_up (adj_capacity adj ! a)
                         ((adj_nn adj)[a := adj_nn adj ! a + 1, b := adj_nn adj ! b + 1] ! a),
                  b := chunk_up (adj_capacity adj ! b)
                         ((adj_nn adj)[a := adj_nn adj ! a + 1, b := adj_nn adj ! b + 1] ! b)],
              adj_nb := (adj_nb adj)[a := adj_nb adj ! a @ [b], b := adj_nb adj ! b @ [a]],
              adj_nb_xyd := (adj_nb_xyd adj)[a := adj_nb_xyd adj ! a @ [sqrt (dx * dx + dy * dy)],
                                             b := adj_nb_xyd adj ! b @ [sqrt (dx * dx + dy * dy)]],
              adj_nb_xd := (adj_nb_xd adj)[a := adj_nb_xd adj ! a @ [dx],
                                           b := adj_nb_xd adj ! b @ [- dx]],
              adj_nb_yd := (adj_nb_yd adj)[a := adj_nb_yd adj ! a @ [dy],
                                           b := adj_nb_yd adj ! b @ [- dy]]\<rparr>"
    using assms(3) unfolding nb_add_pair_fields [OF assms(1)] by simp
  have len: "length (adj_nb adj) = adj_n adj" "length (adj_nb_xd adj) = adj_n adj"
    "length (adj_nb_yd adj) = adj_n adj" "length (adj_nb_xyd adj) = adj_n adj"
    "length (adj_nb_xd adj ! i) = length (adj_nb adj ! i)"
    "length (adj_nb_yd adj ! i) = length (adj_nb adj ! i)"
    "length (adj_nb_xyd adj ! i) = length (adj_nb adj ! i)"
    using assms(2,4) unfolding adj_shape_def by simp_all
  have i: "i < length (adj_nb adj)" "i < length (adj_nb_xd adj)"
    "i < length (adj_nb_yd adj)" "i < length (adj_nb_xyd adj)"
    using len assms(4) by simp_all
  consider "i = b" | "i = a" "i \<noteq> b" | "i \<noteq> a" "i \<noteq> b" by blast
  then show ?thesis
  proof cases
    case 1
    then show ?thesis
      unfolding eq adj_entries_def using len i by simp
  next
    case 2
    then show ?thesis
      unfolding eq adj_entries_def using len i by simp
  next
    case 3
    then show ?thesis
      unfolding eq adj_entries_def by simp
  qed
qed

lemma nb_add_pair_sym:
  assumes "a \<noteq> b" "a < adj_n adj" "b < adj_n adj" "sym_inv adj"
    and "nb_add_pair adj a b dx dy = Inr adj'"
  shows "sym_inv adj'"
proof -
  have sh: "adj_shape adj" using assms(4) by (simp add: sym_inv_def)
  note n = nb_add_pair_shape(2) [OF assms(1) sh assms(5)]
  note sh' = nb_add_pair_shape(1) [OF assms(1) sh assms(5)]
  note ent = nb_add_pair_entries [OF assms(1) sh assms(5)]
  define d where "d = sqrt (dx * dx + dy * dy)"
  have old: "fst e < adj_n adj \<and> fst e \<noteq> i \<and>
        snd (snd (snd e)) = sqrt (fst (snd e) * fst (snd e) + fst (snd (snd e)) * fst (snd (snd e))) \<and>
        (i, - fst (snd e), - fst (snd (snd e)), snd (snd (snd e))) \<in> set (adj_entries adj (fst e))"
    if "i < adj_n adj" "e \<in> set (adj_entries adj i)" for i e
    using assms(4) that unfolding sym_inv_def by blast
  have mono: "set (adj_entries adj i) \<subseteq> set (adj_entries adj' i)" if "i < adj_n adj" for i
    using ent [OF that] by auto
  have "fst e < adj_n adj \<and> fst e \<noteq> i \<and>
        snd (snd (snd e)) = sqrt (fst (snd e) * fst (snd e) + fst (snd (snd e)) * fst (snd (snd e))) \<and>
        (i, - fst (snd e), - fst (snd (snd e)), snd (snd (snd e))) \<in> set (adj_entries adj' (fst e))"
    if i: "i < adj_n adj" and e: "e \<in> set (adj_entries adj' i)" for i e
  proof (cases "e \<in> set (adj_entries adj i)")
    case True
    from old [OF i True] mono [of "fst e"] show ?thesis by blast
  next
    case False
    then have new: "(i = b \<and> e = (a, - dx, - dy, d)) \<or> (i = a \<and> e = (b, dx, dy, d))"
      using e ent [OF i] unfolding d_def by (auto split: if_splits)
    have ina: "(b, dx, dy, d) \<in> set (adj_entries adj' a)"
      using ent [OF assms(2)] assms(1) unfolding d_def by simp
    have inb: "(a, - dx, - dy, d) \<in> set (adj_entries adj' b)"
      using ent [OF assms(3)] assms(1) unfolding d_def by simp
    from new show ?thesis
    proof
      assume "i = b \<and> e = (a, - dx, - dy, d)"
      then show ?thesis using assms(1,2) ina by (simp add: d_def)
    next
      assume "i = a \<and> e = (b, dx, dy, d)"
      then show ?thesis using assms(1,3) inb by (simp add: d_def)
    qed
  qed
  then show ?thesis
    unfolding sym_inv_def n using sh' by blast
qed

lemma nb_check_pair_sym:
  assumes "a < adj_n adj" "b < adj_n adj" "sym_inv adj" "nb_check_pair v r a b adj = Inr adj'"
  shows "sym_inv adj' \<and> adj_n adj' = adj_n adj"
proof -
  have ab: "a \<noteq> b" using assms(4) unfolding nb_check_pair_eq by (auto split: if_splits)
  show ?thesis
  proof (cases "in_contact v r a b")
    case True
    then have add: "nb_add_pair adj a b (coord_x v b - coord_x v a) (coord_y v b - coord_y v a) = Inr adj'"
      using assms(4) ab unfolding nb_check_pair_eq by simp
    have sh: "adj_shape adj" using assms(3) by (simp add: sym_inv_def)
    show ?thesis
      using nb_add_pair_sym [OF ab assms(1,2,3) add] nb_add_pair_shape(2) [OF ab sh add] by simp
  next
    case False
    then have "adj' = adj" using assms(4) ab unfolding nb_check_pair_eq by simp
    then show ?thesis using assms(3) by simp
  qed
qed

lemma fold_pairs_sym:
  assumes "fold_err (\<lambda>p. nb_check_pair v r (fst p) (snd p)) ps adj = Inr adj'"
    and "sym_inv adj" and "\<forall>p \<in> set ps. fst p < adj_n adj \<and> snd p < adj_n adj"
  shows "sym_inv adj' \<and> adj_n adj' = adj_n adj"
proof (rule fold_err_rule [where P = "\<lambda>t. sym_inv t \<and> adj_n t = adj_n adj", OF assms(1)])
  show "sym_inv adj \<and> adj_n adj = adj_n adj" using assms(2) by simp
next
  fix p t t'
  assume t: "sym_inv t \<and> adj_n t = adj_n adj" and p: "p \<in> set ps"
    and step: "nb_check_pair v r (fst p) (snd p) t = Inr t'"
  have "fst p < adj_n t" "snd p < adj_n t" using assms(3) p t by simp_all
  from nb_check_pair_sym [OF this _ step] t
  show "sym_inv t' \<and> adj_n t' = adj_n adj" by simp
qed

subsection \<open>Membership in the adjacency lists\<close>

lemma nb_check_pair_mem:
  assumes "nb_check_pair v r a b adj = Inr adj'" "length (adj_nb adj) = n" "i < n"
  shows "length (adj_nb adj') = n"
    and "set (adj_nb adj' ! i) = set (adj_nb adj ! i) \<union>
          {j. ((i, j) = (a, b) \<or> (j, i) = (a, b)) \<and> in_contact v r i j}"
proof -
  have ab: "a \<noteq> b" using assms(1) unfolding nb_check_pair_eq by (auto split: if_splits)
  have "length (adj_nb adj') = n \<and> set (adj_nb adj' ! i) = set (adj_nb adj ! i) \<union>
          {j. ((i, j) = (a, b) \<or> (j, i) = (a, b)) \<and> in_contact v r i j}"
  proof (cases "in_contact v r a b")
    case True
    then have add: "nb_add_pair adj a b (coord_x v b - coord_x v a) (coord_y v b - coord_y v a) = Inr adj'"
      using assms(1) ab unfolding nb_check_pair_eq by simp
    have nb: "adj_nb adj' = (adj_nb adj)[a := adj_nb adj ! a @ [b], b := adj_nb adj ! b @ [a]]"
      using add unfolding nb_add_pair_fields [OF ab] by auto
    have c: "in_contact v r b a" using True in_contact_sym by blast
    show ?thesis
      unfolding nb using assms(2,3) ab True c
      by (auto simp: nth_update2 [OF ab])
  next
    case False
    then have e: "adj' = adj" using assms(1) ab unfolding nb_check_pair_eq by simp
    have c: "\<not> in_contact v r b a" using False in_contact_sym by blast
    show ?thesis unfolding e using assms(2) False c by auto
  qed
  then show "length (adj_nb adj') = n"
    and "set (adj_nb adj' ! i) = set (adj_nb adj ! i) \<union>
          {j. ((i, j) = (a, b) \<or> (j, i) = (a, b)) \<and> in_contact v r i j}" by simp_all
qed

lemma fold_pairs_mem:
  assumes "fold_err (\<lambda>p. nb_check_pair v r (fst p) (snd p)) ps adj = Inr adj'"
    and "length (adj_nb adj) = n" and "i < n"
  shows "length (adj_nb adj') = n \<and>
     set (adj_nb adj' ! i) = set (adj_nb adj ! i) \<union>
        {j. ((i, j) \<in> set ps \<or> (j, i) \<in> set ps) \<and> in_contact v r i j}"
  using assms(1,2)
proof (induction ps arbitrary: adj)
  case Nil
  then show ?case by simp
next
  case (Cons p ps)
  obtain t where t: "nb_check_pair v r (fst p) (snd p) adj = Inr t"
    "fold_err (\<lambda>p. nb_check_pair v r (fst p) (snd p)) ps t = Inr adj'"
    using Cons.prems(1) by (cases "nb_check_pair v r (fst p) (snd p) adj") simp_all
  note m = nb_check_pair_mem [OF t(1) Cons.prems(2) assms(3)]
  have ih: "length (adj_nb adj') = n \<and>
     set (adj_nb adj' ! i) = set (adj_nb t ! i) \<union>
        {j. ((i, j) \<in> set ps \<or> (j, i) \<in> set ps) \<and> in_contact v r i j}"
    using t(2) m(1) by (rule Cons.IH)
  have p: "p = (fst p, snd p)" by simp
  show ?case
    unfolding ih [THEN conjunct2] m(2) using ih [THEN conjunct1]
    by (subst (3 4) p) auto
qed

lemma fold_pairs_Inr:
  assumes "\<forall>p \<in> set ps. fst p \<noteq> snd p"
  shows "\<exists>adj'. fold_err (\<lambda>p. nb_check_pair v r (fst p) (snd p)) ps adj = Inr adj'"
  using assms
proof (induction ps arbitrary: adj)
  case Nil
  then show ?case by simp
next
  case (Cons p ps)
  have ne: "fst p \<noteq> snd p" using Cons.prems by simp
  have "\<exists>t. nb_check_pair v r (fst p) (snd p) adj = Inr t"
    unfolding nb_check_pair_eq nb_add_pair_fields [OF ne] using ne by simp
  then obtain t where t: "nb_check_pair v r (fst p) (snd p) adj = Inr t" by blast
  have "\<exists>adj'. fold_err (\<lambda>p. nb_check_pair v r (fst p) (snd p)) ps t = Inr adj'"
  proof (rule Cons.IH)
    show "\<forall>p \<in> set ps. fst p \<noteq> snd p" using Cons.prems by simp
  qed
  then show ?case using t by simp
qed

section \<open>The cell list\<close>

subsection \<open>Cells and their indices\<close>

text \<open>The cell \<open>(ix, iy, iz)\<close> that \<^verbatim>\<open>coord2cell_index\<close> computes for atom \<open>a\<close>, the cells
  inside the grid, and the index of a cell in the array.\<close>

definition atom_cell :: "cell_list \<Rightarrow> coord \<Rightarrow> nat \<Rightarrow> int \<times> int \<times> int" where
  "atom_cell c v a =
     (int_of_double ((coord_x v a - cl_x_min c) / cl_d c),
      int_of_double ((coord_y v a - cl_y_min c) / cl_d c),
      int_of_double ((coord_z v a - cl_z_min c) / cl_d c))"

definition valid_cell :: "cell_list \<Rightarrow> int \<times> int \<times> int \<Rightarrow> bool" where
  "valid_cell c t \<longleftrightarrow>
     (case t of (i, j, k) \<Rightarrow>
        0 \<le> i \<and> i < cl_nx c \<and> 0 \<le> j \<and> j < cl_ny c \<and> 0 \<le> k \<and> k < cl_nz c)"

definition cell_no :: "cell_list \<Rightarrow> int \<times> int \<times> int \<Rightarrow> nat" where
  "cell_no c t = (case t of (i, j, k) \<Rightarrow> nat (i + cl_nx c * (j + cl_ny c * k)))"

lemma atom_cell_cells [simp]: "atom_cell (c\<lparr>cl_cell := cs\<rparr>) = atom_cell c"
  by (rule ext, rule ext) (simp add: atom_cell_def)

lemma valid_cell_cells [simp]: "valid_cell (c\<lparr>cl_cell := cs\<rparr>) = valid_cell c"
  by (rule ext) (simp add: valid_cell_def)

lemma cell_no_cells [simp]: "cell_no (c\<lparr>cl_cell := cs\<rparr>) = cell_no c"
  by (rule ext) (simp add: cell_no_def)

lemma cell_index_cells [simp]: "cell_index (c\<lparr>cl_cell := cs\<rparr>) = cell_index c"
  by (rule ext, rule ext, rule ext) (simp add: cell_index_def)

lemma cell_index_valid:
  assumes "valid_cell c (i, j, k)"
  shows "cell_index c i j k = Inr (i + cl_nx c * (j + cl_ny c * k))"
  using assms by (simp add: cell_index_def valid_cell_def)

lemma index_range:
  fixes i j k nx ny nz :: int
  assumes "0 \<le> i" "i < nx" "0 \<le> j" "j < ny" "0 \<le> k" "k < nz"
  shows "0 \<le> i + nx * (j + ny * k)" and "i + nx * (j + ny * k) < nx * ny * nz"
proof -
  have ny: "0 \<le> ny" and nx: "0 \<le> nx" using assms by simp_all
  have "ny * k \<le> ny * (nz - 1)" using assms ny by (intro mult_left_mono) simp_all
  then have m: "j + ny * k \<le> ny * nz - 1" using assms by (simp add: algebra_simps)
  have m0: "0 \<le> j + ny * k" using assms ny by simp
  have "nx * (j + ny * k) \<le> nx * (ny * nz - 1)" using m nx by (intro mult_left_mono) simp_all
  then show "i + nx * (j + ny * k) < nx * ny * nz" using assms by (simp add: algebra_simps)
  show "0 \<le> i + nx * (j + ny * k)" using assms nx m0 by simp
qed

lemma index_split:
  fixes i i' m m' n :: int
  assumes "0 \<le> i" "i < n" "0 \<le> i'" "i' < n" "i + n * m = i' + n * m'"
  shows "i = i' \<and> m = m'"
proof -
  have "(i + n * m) mod n = (i' + n * m') mod n" using assms(5) by simp
  then have i: "i = i'" using assms(1-4) by simp
  have "n \<noteq> 0" using assms by auto
  then show ?thesis using assms(5) i by simp
qed

lemma cell_no_less:
  assumes "valid_cell c t" "cl_n c = cl_nx c * cl_ny c * cl_nz c"
  shows "cell_no c t < nat (cl_n c)"
proof -
  obtain i j k where t: "t = (i, j, k)" by (cases t) auto
  have v: "0 \<le> i" "i < cl_nx c" "0 \<le> j" "j < cl_ny c" "0 \<le> k" "k < cl_nz c"
    using assms(1) unfolding t valid_cell_def by simp_all
  from index_range [OF v] show ?thesis
    unfolding t cell_no_def assms(2) by simp
qed

lemma cell_no_inj:
  assumes "valid_cell c t" "valid_cell c t'" "cell_no c t = cell_no c t'"
  shows "t = t'"
proof -
  obtain i j k where t: "t = (i, j, k)" by (cases t) auto
  obtain i' j' k' where t': "t' = (i', j', k')" by (cases t') auto
  have v: "0 \<le> i" "i < cl_nx c" "0 \<le> j" "j < cl_ny c" "0 \<le> k" "k < cl_nz c"
    using assms(1) unfolding t valid_cell_def by simp_all
  have v': "0 \<le> i'" "i' < cl_nx c" "0 \<le> j'" "j' < cl_ny c" "0 \<le> k'" "k' < cl_nz c"
    using assms(2) unfolding t' valid_cell_def by simp_all
  have "i + cl_nx c * (j + cl_ny c * k) = i' + cl_nx c * (j' + cl_ny c * k')"
    using assms(3) index_range(1) [OF v] index_range(1) [OF v']
    unfolding t t' cell_no_def by simp
  from index_split [OF v(1,2) v'(1,2) this]
  have i: "i = i'" and m: "j + cl_ny c * k = j' + cl_ny c * k'" by simp_all
  from index_split [OF v(3,4) v'(3,4) m] show ?thesis unfolding t t' using i by simp
qed

lemma triples_set: "set (triples xs ys zs) = {(i, j, k). i \<in> set xs \<and> j \<in> set ys \<and> k \<in> set zs}"
  unfolding triples_def by auto

subsection \<open>The bounds\<close>

definition inside :: "coord \<Rightarrow> real \<times> real \<times> real \<times> real \<times> real \<times> real \<Rightarrow> nat \<Rightarrow> bool" where
  "inside v b a \<longleftrightarrow>
     (case b of (x, X, y, Y, z, Z) \<Rightarrow>
        x \<le> coord_x v a \<and> coord_x v a \<le> X \<and> y \<le> coord_y v a \<and> coord_y v a \<le> Y \<and>
        z \<le> coord_z v a \<and> coord_z v a \<le> Z)"

lemma bounds_step_inside:
  "inside v (bounds_step v i b) i"
  "inside v b a \<Longrightarrow> inside v (bounds_step v i b) a"
  unfolding inside_def bounds_step_def by (auto split: prod.splits)

lemma bounds_fold_inside:
  "\<forall>a \<le> m. inside v (fold (bounds_step v) [1..<Suc m]
       (coord_x v 0, coord_x v 0, coord_y v 0, coord_y v 0, coord_z v 0, coord_z v 0)) a"
proof (induction m)
  case 0
  show ?case by (simp add: inside_def)
next
  case (Suc m)
  have u: "[1..<Suc (Suc m)] = [1..<Suc m] @ [Suc m]" by simp
  show ?case
    unfolding u fold_append comp_def fold_simps
    using Suc.IH bounds_step_inside [where v = v and i = "Suc m"] by (auto simp: le_Suc_eq)
qed

lemma int_of_double_of_int: "int_of_double (real_of_int k) = k"
  by (simp add: int_of_double_def)

lemma int_of_double_nonneg: "0 \<le> t \<Longrightarrow> int_of_double t = \<lfloor>t\<rfloor>"
  by (simp add: int_of_double_def)

lemma axis_valid:
  fixes d :: real
  assumes "0 < d" "lo \<le> u" "u \<le> hi"
  shows "0 \<le> int_of_double ((u - (lo - d / 2)) / d)"
    and "int_of_double ((u - (lo - d / 2)) / d) < \<lceil>(hi + d / 2 - (lo - d / 2)) / d\<rceil>"
    and "0 \<le> (u - (lo - d / 2)) / d"
proof -
  have e: "(u - (lo - d / 2)) / d = (u - lo) / d + 1 / 2"
    using assms(1) by (simp add: field_simps)
  have e2: "(hi + d / 2 - (lo - d / 2)) / d = (hi - lo) / d + 1"
    using assms(1) by (simp add: field_simps)
  have p: "0 \<le> (u - lo) / d" using assms by simp
  show t0: "0 \<le> (u - (lo - d / 2)) / d" unfolding e using p by simp
  show "0 \<le> int_of_double ((u - (lo - d / 2)) / d)"
    unfolding int_of_double_nonneg [OF t0] using t0 by simp
  have "(u - lo) / d \<le> (hi - lo) / d" using assms by (simp add: divide_right_mono)
  then have "(u - (lo - d / 2)) / d < (hi + d / 2 - (lo - d / 2)) / d"
    unfolding e e2 by simp
  also have "\<dots> \<le> real_of_int \<lceil>(hi + d / 2 - (lo - d / 2)) / d\<rceil>" by simp
  finally show "int_of_double ((u - (lo - d / 2)) / d) < \<lceil>(hi + d / 2 - (lo - d / 2)) / d\<rceil>"
    unfolding int_of_double_nonneg [OF t0] by (simp add: floor_less_iff)
qed

definition grid_ok :: "coord \<Rightarrow> cell_list \<Rightarrow> bool" where
  "grid_ok v c \<longleftrightarrow>
     0 < cl_d c \<and> cl_n c = cl_nx c * cl_ny c * cl_nz c \<and>
     (\<forall>a < coord_n v. valid_cell c (atom_cell c v a) \<and>
        0 \<le> (coord_x v a - cl_x_min c) / cl_d c \<and>
        0 \<le> (coord_y v a - cl_y_min c) / cl_d c \<and>
        0 \<le> (coord_z v a - cl_z_min c) / cl_d c)"

lemma grid_ok_cells [simp]: "grid_ok v (c\<lparr>cl_cell := cs\<rparr>) = grid_ok v c"
  by (simp add: grid_ok_def)

lemma cell_list_bounds_ok:
  assumes "0 < cl_d c" "0 < coord_n v"
  shows "grid_ok v (cell_list_bounds c v)"
    and "cl_d (cell_list_bounds c v) = cl_d c"
    and "cl_cell (cell_list_bounds c v) = cl_cell c"
proof -
  define b where "b = fold (bounds_step v) [1..<coord_n v]
       (coord_x v 0, coord_x v 0, coord_y v 0, coord_y v 0, coord_z v 0, coord_z v 0)"
  obtain x X y Y z Z where bx: "b = (x, X, y, Y, z, Z)" by (cases b) auto
  define d where "d = cl_d c"
  have d: "0 < d" using assms(1) by (simp add: d_def)
  obtain m where m: "coord_n v = Suc m" using assms(2) by (cases "coord_n v") auto
  have ins: "inside v b a" if "a < coord_n v" for a
    using bounds_fold_inside [of m v] that unfolding b_def m by simp
  have eq: "cell_list_bounds c v =
     c\<lparr>cl_x_min := x - d / 2, cl_x_max := X + d / 2,
       cl_y_min := y - d / 2, cl_y_max := Y + d / 2,
       cl_z_min := z - d / 2, cl_z_max := Z + d / 2,
       cl_nx := \<lceil>(X + d / 2 - (x - d / 2)) / d\<rceil>,
       cl_ny := \<lceil>(Y + d / 2 - (y - d / 2)) / d\<rceil>,
       cl_nz := \<lceil>(Z + d / 2 - (z - d / 2)) / d\<rceil>,
       cl_n := \<lceil>(X + d / 2 - (x - d / 2)) / d\<rceil> * \<lceil>(Y + d / 2 - (y - d / 2)) / d\<rceil> *
               \<lceil>(Z + d / 2 - (z - d / 2)) / d\<rceil>\<rparr>"
    unfolding cell_list_bounds_def Let_def b_def [symmetric] bx d_def [symmetric]
    by (simp add: int_of_double_of_int)
  show "cl_d (cell_list_bounds c v) = cl_d c" unfolding eq by simp
  show "cl_cell (cell_list_bounds c v) = cl_cell c" unfolding eq by simp
  have at: "valid_cell (cell_list_bounds c v) (atom_cell (cell_list_bounds c v) v a) \<and>
        0 \<le> (coord_x v a - cl_x_min (cell_list_bounds c v)) / cl_d (cell_list_bounds c v) \<and>
        0 \<le> (coord_y v a - cl_y_min (cell_list_bounds c v)) / cl_d (cell_list_bounds c v) \<and>
        0 \<le> (coord_z v a - cl_z_min (cell_list_bounds c v)) / cl_d (cell_list_bounds c v)"
    if "a < coord_n v" for a
  proof -
    have i: "x \<le> coord_x v a" "coord_x v a \<le> X" "y \<le> coord_y v a" "coord_y v a \<le> Y"
      "z \<le> coord_z v a" "coord_z v a \<le> Z"
      using ins [OF that] unfolding bx inside_def by simp_all
    show ?thesis
      unfolding eq valid_cell_def atom_cell_def
      using axis_valid [OF d i(1,2)] axis_valid [OF d i(3,4)] axis_valid [OF d i(5,6)]
      by (simp add: d_def [symmetric])
  qed
  show "grid_ok v (cell_list_bounds c v)"
    unfolding grid_ok_def using at
    by (simp add: eq d_def [symmetric] d)
qed

subsection \<open>\<^verbatim>\<open>fill_cells\<close>\<close>

lemma coord2cell_index_valid:
  assumes "valid_cell c (atom_cell c v a)"
  shows "coord2cell_index c (v ! a) = Inr (int (cell_no c (atom_cell c v a)))"
proof -
  obtain i j k where t: "atom_cell c v a = (i, j, k)" by (cases "atom_cell c v a") auto
  have v: "0 \<le> i" "i < cl_nx c" "0 \<le> j" "j < cl_ny c" "0 \<le> k" "k < cl_nz c"
    using assms unfolding t valid_cell_def by simp_all
  have ijk: "i = int_of_double ((fst (v ! a) - cl_x_min c) / cl_d c)"
    "j = int_of_double ((fst (snd (v ! a)) - cl_y_min c) / cl_d c)"
    "k = int_of_double ((snd (snd (v ! a)) - cl_z_min c) / cl_d c)"
    using t unfolding atom_cell_def coord_x_def coord_y_def coord_z_def by simp_all
  have "coord2cell_index c (v ! a) = cell_index c i j k"
    unfolding coord2cell_index_def Let_def ijk ..
  also have "\<dots> = Inr (i + cl_nx c * (j + cl_ny c * k))"
    using assms unfolding t by (rule cell_index_valid)
  finally show ?thesis
    unfolding t cell_no_def using index_range(1) [OF v] by simp
qed

lemma fill_cells_step_valid:
  assumes "valid_cell c (atom_cell c v a)"
  shows "fill_cells_step v a (c\<lparr>cl_cell := cs\<rparr>) =
     Inr (c\<lparr>cl_cell := cs[cell_no c (atom_cell c v a) :=
            (cs ! cell_no c (atom_cell c v a))
              \<lparr>cell_atom := cell_atom (cs ! cell_no c (atom_cell c v a)) @ [a]\<rparr>]\<rparr>)"
proof -
  have "valid_cell (c\<lparr>cl_cell := cs\<rparr>) (atom_cell (c\<lparr>cl_cell := cs\<rparr>) v a)"
    using assms by simp
  from coord2cell_index_valid [OF this] show ?thesis
    unfolding fill_cells_step_def by simp
qed

definition cells_of :: "cell_list \<Rightarrow> coord \<Rightarrow> nat \<Rightarrow> nat \<Rightarrow> nat list" where
  "cells_of c v m ic = filter (\<lambda>a. cell_no c (atom_cell c v a) = ic) [0..<m]"

lemma cells_of_Suc:
  "cells_of c v (Suc m) ic =
     (if cell_no c (atom_cell c v m) = ic then cells_of c v m ic @ [m] else cells_of c v m ic)"
  by (simp add: cells_of_def)

lemma fill_cells_ok:
  assumes "grid_ok v c" "length (cl_cell c) = nat (cl_n c)"
  shows "\<exists>cs. fill_cells c v = Inr (c\<lparr>cl_cell := cs\<rparr>) \<and> length cs = nat (cl_n c) \<and>
     (\<forall>ic < nat (cl_n c). cell_atom (cs ! ic) = cells_of c v (coord_n v) ic \<and>
         cell_nb (cs ! ic) = cell_nb (cl_cell c ! ic))"
proof -
  define J where "J = (\<lambda>m t. \<exists>cs. t = c\<lparr>cl_cell := cs\<rparr> \<and> length cs = nat (cl_n c) \<and>
     (\<forall>ic < nat (cl_n c). cell_atom (cs ! ic) = cells_of c v m ic \<and>
         cell_nb (cs ! ic) = cell_nb (cl_cell c ! ic)))"
  have n: "cl_n c = cl_nx c * cl_ny c * cl_nz c" using assms(1) by (simp add: grid_ok_def)
  have J0: "J 0 (c\<lparr>cl_cell := map (\<lambda>cell. cell\<lparr>cell_atom := []\<rparr>) (cl_cell c)\<rparr>)"
    unfolding J_def using assms(2)
    by (intro exI [of _ "map (\<lambda>cell. cell\<lparr>cell_atom := []\<rparr>) (cl_cell c)"])
       (simp add: cells_of_def)
  have step: "\<exists>t'. fill_cells_step v m t = Inr t' \<and> J (Suc m) t'"
    if m: "m < coord_n v" and Jm: "J m t" for m t
  proof -
    obtain cs where cs: "t = c\<lparr>cl_cell := cs\<rparr>" "length cs = nat (cl_n c)"
      "\<And>ic. ic < nat (cl_n c) \<Longrightarrow> cell_atom (cs ! ic) = cells_of c v m ic"
      "\<And>ic. ic < nat (cl_n c) \<Longrightarrow> cell_nb (cs ! ic) = cell_nb (cl_cell c ! ic)"
      using Jm unfolding J_def by blast
    have val: "valid_cell c (atom_cell c v m)" using assms(1) m by (simp add: grid_ok_def)
    define k where "k = cell_no c (atom_cell c v m)"
    have k: "k < nat (cl_n c)" unfolding k_def using val n by (rule cell_no_less)
    define cs' where "cs' = cs[k := (cs ! k)\<lparr>cell_atom := cell_atom (cs ! k) @ [m]\<rparr>]"
    have r: "fill_cells_step v m t = Inr (c\<lparr>cl_cell := cs'\<rparr>)"
      unfolding cs(1) cs'_def k_def using val by (rule fill_cells_step_valid)
    have "cell_atom (cs' ! ic) = cells_of c v (Suc m) ic \<and>
         cell_nb (cs' ! ic) = cell_nb (cl_cell c ! ic)" if ic: "ic < nat (cl_n c)" for ic
    proof (cases "ic = k")
      case True
      then show ?thesis
        unfolding cs'_def cells_of_Suc using cs(2,3,4) k by (simp add: k_def)
    next
      case False
      then show ?thesis
        unfolding cs'_def cells_of_Suc using cs(3,4) ic by (simp add: k_def)
    qed
    then have "J (Suc m) (c\<lparr>cl_cell := cs'\<rparr>)"
      unfolding J_def using cs(2) by (intro exI [of _ cs']) (simp add: cs'_def)
    then show ?thesis using r by blast
  qed
  have "\<exists>s'. fold_err (fill_cells_step v) [0..<coord_n v]
           (c\<lparr>cl_cell := map (\<lambda>cell. cell\<lparr>cell_atom := []\<rparr>) (cl_cell c)\<rparr>) = Inr s' \<and>
         J (coord_n v) s'"
    using J0 step by (rule fold_err_upt_rule)
  then show ?thesis unfolding fill_cells_def J_def by blast
qed

subsection \<open>\<^verbatim>\<open>fill_nb\<close> and \<^verbatim>\<open>get_nb\<close>\<close>

text \<open>The forward neighbours of the cell \<open>(ix, iy, iz)\<close>, in the order of the loops.\<close>

definition fwd_cells :: "cell_list \<Rightarrow> int \<times> int \<times> int \<Rightarrow> (int \<times> int \<times> int) list" where
  "fwd_cells c t =
     (case t of (ix, iy, iz) \<Rightarrow>
        filter (\<lambda>t'. case t' of (i, j, k) \<Rightarrow> i - ix + j - iy + k - iz \<ge> 0)
          (triples [(if ix > 0 then ix - 1 else 0)..(if ix < cl_nx c - 1 then ix + 1 else ix)]
                   [(if iy > 0 then iy - 1 else 0)..(if iy < cl_ny c - 1 then iy + 1 else iy)]
                   [(if iz > 0 then iz - 1 else 0)..(if iz < cl_nz c - 1 then iz + 1 else iz)]))"

lemma fwd_cells_cells [simp]: "fwd_cells (c\<lparr>cl_cell := cs\<rparr>) = fwd_cells c"
  by (rule ext) (simp add: fwd_cells_def)

lemma fill_nb_step_fold:
  assumes "\<forall>t \<in> set ts. valid_cell c t"
  shows "fold_err (fill_nb_step c ix iy iz) ts nb =
     Inr (nb @ map (cell_no c)
            (filter (\<lambda>t'. case t' of (i, j, k) \<Rightarrow> i - ix + j - iy + k - iz \<ge> 0) ts))"
  using assms
proof (induction ts arbitrary: nb)
  case Nil
  then show ?case by simp
next
  case (Cons t ts)
  obtain i j k where t: "t = (i, j, k)" by (cases t) auto
  have v: "valid_cell c (i, j, k)" using Cons.prems t by simp
  have ih: "fold_err (fill_nb_step c ix iy iz) ts nb' =
     Inr (nb' @ map (cell_no c)
            (filter (\<lambda>t'. case t' of (i, j, k) \<Rightarrow> i - ix + j - iy + k - iz \<ge> 0) ts))" for nb'
    using Cons.prems by (intro Cons.IH) simp
  have s: "fill_nb_step c ix iy iz (i, j, k) nb =
      Inr (if i - ix + j - iy + k - iz \<ge> 0 then nb @ [cell_no c (i, j, k)] else nb)"
    using cell_index_valid [OF v] by (simp add: fill_nb_step_def cell_no_def)
  show ?case
    unfolding t fold_err.simps s sum.case ih by simp
qed

lemma fwd_cells_valid:
  assumes "valid_cell c t" "t' \<in> set (fwd_cells c t)"
  shows "valid_cell c t'"
proof -
  obtain ix iy iz where t: "t = (ix, iy, iz)" by (cases t) auto
  obtain i j k where t': "t' = (i, j, k)" by (cases t') auto
  show ?thesis
    using assms unfolding t t' fwd_cells_def valid_cell_def
    by (auto simp: triples_set split: if_splits)
qed

lemma fwd_cells_mem:
  assumes "valid_cell c (ix, iy, iz)" "valid_cell c (i, j, k)"
    and "\<bar>i - ix\<bar> \<le> 1" "\<bar>j - iy\<bar> \<le> 1" "\<bar>k - iz\<bar> \<le> 1"
    and "i - ix + j - iy + k - iz \<ge> 0"
  shows "(i, j, k) \<in> set (fwd_cells c (ix, iy, iz))"
  using assms unfolding fwd_cells_def valid_cell_def
  by (auto simp: triples_set)

lemma fwd_cells_self:
  assumes "valid_cell c t"
  shows "t \<in> set (fwd_cells c t)"
proof -
  obtain ix iy iz where t: "t = (ix, iy, iz)" by (cases t) auto
  show ?thesis using assms unfolding t by (intro fwd_cells_mem) simp_all
qed

lemma fill_nb_valid:
  assumes "valid_cell c (ix, iy, iz)"
  shows "fill_nb (c\<lparr>cl_cell := cs\<rparr>) ix iy iz =
     Inr (c\<lparr>cl_cell := cs[cell_no c (ix, iy, iz) :=
            (cs ! cell_no c (ix, iy, iz))\<lparr>cell_nb := map (cell_no c) (fwd_cells c (ix, iy, iz))\<rparr>]\<rparr>)"
proof -
  define c' where "c' = c\<lparr>cl_cell := cs\<rparr>"
  have v': "valid_cell c' (ix, iy, iz)" using assms by (simp add: c'_def)
  define ts where "ts = triples [(if ix > 0 then ix - 1 else 0)..(if ix < cl_nx c' - 1 then ix + 1 else ix)]
                   [(if iy > 0 then iy - 1 else 0)..(if iy < cl_ny c' - 1 then iy + 1 else iy)]
                   [(if iz > 0 then iz - 1 else 0)..(if iz < cl_nz c' - 1 then iz + 1 else iz)]"
  have tsv: "\<forall>t \<in> set ts. valid_cell c' t"
    using v' unfolding ts_def valid_cell_def by (auto simp: triples_set split: if_splits)
  have f: "filter (\<lambda>t'. case t' of (i, j, k) \<Rightarrow> i - ix + j - iy + k - iz \<ge> 0) ts =
      fwd_cells c' (ix, iy, iz)"
    unfolding fwd_cells_def ts_def by simp
  have fold: "fold_err (fill_nb_step c' ix iy iz) ts [] =
      Inr (map (cell_no c') (fwd_cells c' (ix, iy, iz)))"
    unfolding fill_nb_step_fold [OF tsv] f by simp
  have ne: "fwd_cells c' (ix, iy, iz) \<noteq> []"
    using fwd_cells_self [OF v'] by auto
  have idx: "0 \<le> ix + cl_nx c' * (iy + cl_ny c' * iz)"
    using v' index_range(1) [of ix "cl_nx c'" iy "cl_ny c'" iz "cl_nz c'"]
    unfolding valid_cell_def by simp
  have "fill_nb c' ix iy iz =
     Inr (c'\<lparr>cl_cell := (cl_cell c')[cell_no c' (ix, iy, iz) :=
            (cl_cell c' ! cell_no c' (ix, iy, iz))\<lparr>cell_nb := map (cell_no c') (fwd_cells c' (ix, iy, iz))\<rparr>]\<rparr>)"
    unfolding fill_nb_def Let_def cell_index_valid [OF v'] ts_def [symmetric]
    using fold ne by (simp add: cell_no_def)
  then show ?thesis unfolding c'_def by simp
qed

lemma get_nb_ok:
  assumes "cl_n c = cl_nx c * cl_ny c * cl_nz c" "length (cl_cell c) = nat (cl_n c)"
    and "\<forall>ic < nat (cl_n c). \<forall>k \<in> set (cell_nb (cl_cell c ! ic)). k < nat (cl_n c)"
  shows "\<exists>cs. get_nb c = Inr (c\<lparr>cl_cell := cs\<rparr>) \<and> length cs = nat (cl_n c) \<and>
     (\<forall>ic < nat (cl_n c). cell_atom (cs ! ic) = cell_atom (cl_cell c ! ic)) \<and>
     (\<forall>t. valid_cell c t \<longrightarrow> cell_nb (cs ! cell_no c t) = map (cell_no c) (fwd_cells c t)) \<and>
     (\<forall>ic < nat (cl_n c). \<forall>k \<in> set (cell_nb (cs ! ic)). k < nat (cl_n c))"
proof -
  define L where "L = triples [0..cl_nx c - 1] [0..cl_ny c - 1] [0..cl_nz c - 1]"
  have L: "t \<in> set L \<longleftrightarrow> valid_cell c t" for t
    unfolding L_def valid_cell_def by (cases t) (auto simp: triples_set)
  define I where "I = (\<lambda>ys t. \<exists>cs. t = c\<lparr>cl_cell := cs\<rparr> \<and> length cs = nat (cl_n c) \<and>
     (\<forall>ic < nat (cl_n c). cell_atom (cs ! ic) = cell_atom (cl_cell c ! ic)) \<and>
     (\<forall>t \<in> set ys. cell_nb (cs ! cell_no c t) = map (cell_no c) (fwd_cells c t)) \<and>
     (\<forall>ic < nat (cl_n c). \<forall>k \<in> set (cell_nb (cs ! ic)). k < nat (cl_n c)))"
  have I0: "I [] c"
    unfolding I_def using assms(2,3) by (intro exI [of _ "cl_cell c"]) simp
  have step: "\<exists>t'. (case x of (ix, iy, iz) \<Rightarrow> fill_nb t ix iy iz) = Inr t' \<and> I (ys @ [x]) t'"
    if split: "L = ys @ x # zs" and Iy: "I ys t" for ys x zs t
  proof -
    obtain cs where cs: "t = c\<lparr>cl_cell := cs\<rparr>" "length cs = nat (cl_n c)"
      "\<And>ic. ic < nat (cl_n c) \<Longrightarrow> cell_atom (cs ! ic) = cell_atom (cl_cell c ! ic)"
      "\<And>t. t \<in> set ys \<Longrightarrow> cell_nb (cs ! cell_no c t) = map (cell_no c) (fwd_cells c t)"
      "\<And>ic k. ic < nat (cl_n c) \<Longrightarrow> k \<in> set (cell_nb (cs ! ic)) \<Longrightarrow> k < nat (cl_n c)"
      using Iy unfolding I_def by blast
    have xv: "valid_cell c x" using L [of x] split by simp
    have yv: "valid_cell c t" if "t \<in> set ys" for t using L [of t] split that by simp
    obtain ix iy iz where x: "x = (ix, iy, iz)" by (cases x) auto
    define k where "k = cell_no c x"
    have k: "k < nat (cl_n c)" unfolding k_def using xv assms(1) by (rule cell_no_less)
    define cs' where "cs' = cs[k := (cs ! k)\<lparr>cell_nb := map (cell_no c) (fwd_cells c x)\<rparr>]"
    have r: "(case x of (ix, iy, iz) \<Rightarrow> fill_nb t ix iy iz) = Inr (c\<lparr>cl_cell := cs'\<rparr>)"
      unfolding cs(1) cs'_def k_def x using xv [unfolded x] by (simp add: fill_nb_valid)
    have a: "cell_atom (cs' ! ic) = cell_atom (cl_cell c ! ic)" if "ic < nat (cl_n c)" for ic
      using cs(2,3) that unfolding cs'_def by (cases "ic = k") simp_all
    have b: "cell_nb (cs' ! cell_no c t) = map (cell_no c) (fwd_cells c t)"
      if "t \<in> set (ys @ [x])" for t
    proof (cases "cell_no c t = k")
      case True
      have "valid_cell c t" using that yv [of t] xv by auto
      then have "t = x" using xv True unfolding k_def by (intro cell_no_inj)
      then show ?thesis unfolding cs'_def using k cs(2) by (simp add: k_def)
    next
      case False
      then have "t \<in> set ys" using that by (auto simp: k_def)
      then show ?thesis unfolding cs'_def using False cs(4) by simp
    qed
    have d: "j < nat (cl_n c)" if "ic < nat (cl_n c)" "j \<in> set (cell_nb (cs' ! ic))" for ic j
    proof (cases "ic = k")
      case True
      then have "j \<in> cell_no c ` set (fwd_cells c x)"
        using that k cs(2) unfolding cs'_def by simp
      then obtain t' where "t' \<in> set (fwd_cells c x)" "j = cell_no c t'" by blast
      then show ?thesis using fwd_cells_valid [OF xv] cell_no_less assms(1) by blast
    next
      case False
      then show ?thesis using that cs(5) unfolding cs'_def by simp
    qed
    have "I (ys @ [x]) (c\<lparr>cl_cell := cs'\<rparr>)"
      unfolding I_def
    proof (intro exI [of _ cs'] conjI allI impI ballI)
      show "c\<lparr>cl_cell := cs'\<rparr> = c\<lparr>cl_cell := cs'\<rparr>" ..
      show "length cs' = nat (cl_n c)" using cs(2) by (simp add: cs'_def)
    qed (use a b d in blast)+
    then show ?thesis using r by blast
  qed
  have "\<exists>s'. fold_err (\<lambda>t c. case t of (ix, iy, iz) \<Rightarrow> fill_nb c ix iy iz) L c = Inr s' \<and> I L s'"
    using I0 step by (rule fold_err_prefix_rule)
  then obtain cs where cs: "get_nb c = Inr (c\<lparr>cl_cell := cs\<rparr>)" "length cs = nat (cl_n c)"
     "\<forall>ic < nat (cl_n c). cell_atom (cs ! ic) = cell_atom (cl_cell c ! ic)"
     "\<forall>t \<in> set L. cell_nb (cs ! cell_no c t) = map (cell_no c) (fwd_cells c t)"
     "\<forall>ic < nat (cl_n c). \<forall>k \<in> set (cell_nb (cs ! ic)). k < nat (cl_n c)"
    unfolding get_nb_def L_def [symmetric] I_def by blast
  show ?thesis
    using cs L by (intro exI [of _ cs]) blast
qed

subsection \<open>\<^verbatim>\<open>cell_list_new\<close>\<close>

definition cells_ok :: "coord \<Rightarrow> cell_list \<Rightarrow> bool" where
  "cells_ok v c \<longleftrightarrow>
     grid_ok v c \<and> length (cl_cell c) = nat (cl_n c) \<and>
     (\<forall>ic < nat (cl_n c). cell_atom (cl_cell c ! ic) = cells_of c v (coord_n v) ic) \<and>
     (\<forall>t. valid_cell c t \<longrightarrow> cell_nb (cl_cell c ! cell_no c t) = map (cell_no c) (fwd_cells c t)) \<and>
     (\<forall>ic < nat (cl_n c). \<forall>k \<in> set (cell_nb (cl_cell c ! ic)). k < nat (cl_n c))"

lemma cells_of_cells [simp]: "cells_of (c\<lparr>cl_cell := cs\<rparr>) = cells_of c"
  by (rule ext, rule ext, rule ext) (simp add: cells_of_def)

lemma get_nb_ok_cells:
  assumes "cl_n c = cl_nx c * cl_ny c * cl_nz c" "length cs = nat (cl_n c)"
    and "\<forall>ic < nat (cl_n c). \<forall>k \<in> set (cell_nb (cs ! ic)). k < nat (cl_n c)"
  shows "\<exists>cs'. get_nb (c\<lparr>cl_cell := cs\<rparr>) = Inr (c\<lparr>cl_cell := cs'\<rparr>) \<and> length cs' = nat (cl_n c) \<and>
     (\<forall>ic < nat (cl_n c). cell_atom (cs' ! ic) = cell_atom (cs ! ic)) \<and>
     (\<forall>t. valid_cell c t \<longrightarrow> cell_nb (cs' ! cell_no c t) = map (cell_no c) (fwd_cells c t)) \<and>
     (\<forall>ic < nat (cl_n c). \<forall>k \<in> set (cell_nb (cs' ! ic)). k < nat (cl_n c))"
  using get_nb_ok [of "c\<lparr>cl_cell := cs\<rparr>"] assms by simp

lemma fill_cells_ok_cells:
  assumes "grid_ok v c" "length cs = nat (cl_n c)"
  shows "\<exists>cs'. fill_cells (c\<lparr>cl_cell := cs\<rparr>) v = Inr (c\<lparr>cl_cell := cs'\<rparr>) \<and> length cs' = nat (cl_n c) \<and>
     (\<forall>ic < nat (cl_n c). cell_atom (cs' ! ic) = cells_of c v (coord_n v) ic \<and>
         cell_nb (cs' ! ic) = cell_nb (cs ! ic))"
  using fill_cells_ok [of v "c\<lparr>cl_cell := cs\<rparr>"] assms by simp

lemma cell_list_new_ok:
  assumes "0 < d" "0 < coord_n v"
  shows "\<exists>c. cell_list_new d v = Inr c \<and> cells_ok v c \<and> cl_d c = d"
proof -
  define c0 where "c0 = \<lparr>cl_cell = [], cl_n = 0, cl_nx = 0, cl_ny = 0, cl_nz = 0, cl_d = d,
                    cl_x_max = 0, cl_x_min = 0, cl_y_max = 0, cl_y_min = 0,
                    cl_z_max = 0, cl_z_min = 0\<rparr>"
  define c1 where "c1 = cell_list_bounds c0 v"
  define cs0 where "cs0 = replicate (nat (cl_n c1)) \<lparr>cell_nb = [], cell_atom = []\<rparr>"
  have d0: "0 < cl_d c0" "cl_d c0 = d" using assms(1) by (simp_all add: c0_def)
  have g1: "grid_ok v c1" unfolding c1_def using d0(1) assms(2) by (rule cell_list_bounds_ok(1))
  have d1: "cl_d c1 = d"
    unfolding c1_def cell_list_bounds_ok(2) [OF d0(1) assms(2)] by (rule d0(2))
  have n1: "cl_n c1 = cl_nx c1 * cl_ny c1 * cl_nz c1" using g1 by (simp add: grid_ok_def)
  have l0: "length cs0 = nat (cl_n c1)" by (simp add: cs0_def)
  obtain cs where cs: "fill_cells (c1\<lparr>cl_cell := cs0\<rparr>) v = Inr (c1\<lparr>cl_cell := cs\<rparr>)"
     "length cs = nat (cl_n c1)"
     "\<And>ic. ic < nat (cl_n c1) \<Longrightarrow> cell_atom (cs ! ic) = cells_of c1 v (coord_n v) ic"
     "\<And>ic. ic < nat (cl_n c1) \<Longrightarrow> cell_nb (cs ! ic) = cell_nb (cs0 ! ic)"
    using fill_cells_ok_cells [OF g1 l0] by blast
  have e: "\<forall>ic < nat (cl_n c1). \<forall>k \<in> set (cell_nb (cs ! ic)). k < nat (cl_n c1)"
  proof (intro allI impI)
    fix ic assume ic: "ic < nat (cl_n c1)"
    have "cell_nb (cs ! ic) = []" unfolding cs(4) [OF ic] cs0_def using ic by simp
    then show "\<forall>k \<in> set (cell_nb (cs ! ic)). k < nat (cl_n c1)" by simp
  qed
  obtain cs' where cs': "get_nb (c1\<lparr>cl_cell := cs\<rparr>) = Inr (c1\<lparr>cl_cell := cs'\<rparr>)"
     "length cs' = nat (cl_n c1)"
     "\<And>ic. ic < nat (cl_n c1) \<Longrightarrow> cell_atom (cs' ! ic) = cell_atom (cs ! ic)"
     "\<forall>t. valid_cell c1 t \<longrightarrow> cell_nb (cs' ! cell_no c1 t) = map (cell_no c1) (fwd_cells c1 t)"
     "\<forall>ic < nat (cl_n c1). \<forall>k \<in> set (cell_nb (cs' ! ic)). k < nat (cl_n c1)"
    using get_nb_ok_cells [OF n1 cs(2) e] by blast
  have "cell_list_new d v =
      (case fill_cells (c1\<lparr>cl_cell := cs0\<rparr>) v of Inl e \<Rightarrow> Inl e | Inr c3 \<Rightarrow> get_nb c3)"
    unfolding cell_list_new_def Let_def c0_def [symmetric] c1_def [symmetric] cs0_def [symmetric]
    using assms(1) by simp
  also have "\<dots> = get_nb (c1\<lparr>cl_cell := cs\<rparr>)" unfolding cs(1) by simp
  finally have r: "cell_list_new d v = Inr (c1\<lparr>cl_cell := cs'\<rparr>)" unfolding cs'(1) .
  have at: "\<forall>ic < nat (cl_n c1). cell_atom (cs' ! ic) = cells_of c1 v (coord_n v) ic"
    using cs'(3) cs(3) by simp
  have "cells_ok v (c1\<lparr>cl_cell := cs'\<rparr>)"
    unfolding cells_ok_def using g1 cs'(2,4,5) at by simp
  then show ?thesis using r d1 by (intro exI [of _ "c1\<lparr>cl_cell := cs'\<rparr>"]) simp
qed

subsection \<open>The pairs of a well-formed cell list\<close>

lemma cells_of_mem:
  "a \<in> set (cells_of c v n ic) \<longleftrightarrow> a < n \<and> cell_no c (atom_cell c v a) = ic"
  unfolding cells_of_def by auto

lemma cells_of_distinct: "distinct (cells_of c v n ic)"
  unfolding cells_of_def by simp

lemma pair_list_sound:
  assumes "cells_ok v c" "(a, b) \<in> set (pair_list c)"
  shows "a \<noteq> b \<and> a < coord_n v \<and> b < coord_n v"
proof -
  define n where "n = coord_n v"
  obtain ic jc where ic: "ic < nat (cl_n c)" and jc: "jc < length (cell_nb (cl_cell c ! ic))"
    and ab: "(a, b) \<in> set (cell_pairs (cl_cell c) ic (cell_nb (cl_cell c ! ic) ! jc))"
    using assms(2) unfolding pair_list_mem by blast
  define jc' where "jc' = cell_nb (cl_cell c ! ic) ! jc"
  have "jc' \<in> set (cell_nb (cl_cell c ! ic))" unfolding jc'_def using jc by simp
  then have jc': "jc' < nat (cl_n c)" using assms(1) ic unfolding cells_ok_def by blast
  have A: "cell_atom (cl_cell c ! ic) = cells_of c v n ic"
    using assms(1) ic unfolding cells_ok_def n_def by blast
  have B: "cell_atom (cl_cell c ! jc') = cells_of c v n jc'"
    using assms(1) jc' unfolding cells_ok_def n_def by blast
  obtain i j where i: "i < length (cells_of c v n ic)" and j: "j < length (cells_of c v n jc')"
    and ij: "ic = jc' \<longrightarrow> i < j" and a: "a = cells_of c v n ic ! i" and b: "b = cells_of c v n jc' ! j"
    using ab unfolding jc'_def [symmetric] cell_pairs_mem A B by blast
  have am: "a \<in> set (cells_of c v n ic)" unfolding a using i by simp
  have bm: "b \<in> set (cells_of c v n jc')" unfolding b using j by simp
  have "a \<noteq> b"
  proof (cases "ic = jc'")
    case True
    then have "i < j" using ij by simp
    then show ?thesis
      unfolding a b using True i j cells_of_distinct [of c v n jc']
      by (simp add: nth_eq_iff_index_eq)
  next
    case False
    then show ?thesis using am bm unfolding cells_of_mem by auto
  qed
  then show ?thesis using am bm unfolding cells_of_mem n_def by simp
qed

lemma pair_list_forward:
  assumes ok: "cells_ok v c" and p: "p < coord_n v" and q: "q < coord_n v" and pq: "p \<noteq> q"
    and tp: "atom_cell c v p = (ix, iy, iz)" and tq: "atom_cell c v q = (i, j, k)"
    and adj: "\<bar>i - ix\<bar> \<le> 1" "\<bar>j - iy\<bar> \<le> 1" "\<bar>k - iz\<bar> \<le> 1"
    and fwd: "i - ix + j - iy + k - iz \<ge> 0"
  shows "(p, q) \<in> set (pair_list c) \<or> (q, p) \<in> set (pair_list c)"
proof -
  define n where "n = coord_n v"
  have g: "grid_ok v c" using ok by (simp add: cells_ok_def)
  have nn: "cl_n c = cl_nx c * cl_ny c * cl_nz c" using g by (simp add: grid_ok_def)
  have vp: "valid_cell c (ix, iy, iz)" using g p tp unfolding grid_ok_def by auto
  have vq: "valid_cell c (i, j, k)" using g q tq unfolding grid_ok_def by auto
  define ic where "ic = cell_no c (ix, iy, iz)"
  define jc' where "jc' = cell_no c (i, j, k)"
  have ic: "ic < nat (cl_n c)" unfolding ic_def using vp nn by (rule cell_no_less)
  have jc': "jc' < nat (cl_n c)" unfolding jc'_def using vq nn by (rule cell_no_less)
  have A: "cell_atom (cl_cell c ! ic) = cells_of c v n ic"
    using ok ic unfolding cells_ok_def n_def by blast
  have B: "cell_atom (cl_cell c ! jc') = cells_of c v n jc'"
    using ok jc' unfolding cells_ok_def n_def by blast
  have N: "cell_nb (cl_cell c ! ic) = map (cell_no c) (fwd_cells c (ix, iy, iz))"
    using ok vp unfolding cells_ok_def ic_def by blast
  have "(i, j, k) \<in> set (fwd_cells c (ix, iy, iz))"
    using vp vq adj fwd by (rule fwd_cells_mem)
  then have "jc' \<in> set (cell_nb (cl_cell c ! ic))" unfolding N jc'_def by simp
  then obtain jc where jc: "jc < length (cell_nb (cl_cell c ! ic))" "cell_nb (cl_cell c ! ic) ! jc = jc'"
    unfolding in_set_conv_nth by blast
  have "p \<in> set (cells_of c v n ic)" unfolding cells_of_mem using p tp by (simp add: n_def ic_def)
  then obtain a where a: "a < length (cells_of c v n ic)" "cells_of c v n ic ! a = p"
    unfolding in_set_conv_nth by blast
  have "q \<in> set (cells_of c v n jc')" unfolding cells_of_mem using q tq by (simp add: n_def jc'_def)
  then obtain b where b: "b < length (cells_of c v n jc')" "cells_of c v n jc' ! b = q"
    unfolding in_set_conv_nth by blast
  have mem: "(x, y) \<in> set (pair_list c)"
    if "(x, y) \<in> set (cell_pairs (cl_cell c) ic jc')" for x y
    unfolding pair_list_mem using ic jc that by blast
  show ?thesis
  proof (cases "ic = jc'")
    case False
    have "(p, q) \<in> set (cell_pairs (cl_cell c) ic jc')"
      unfolding cell_pairs_mem A B using False a b by blast
    then show ?thesis using mem by blast
  next
    case True
    have ab: "a \<noteq> b" using a(2) b(2) pq True by auto
    show ?thesis
    proof (cases "a < b")
      case True
      have "(p, q) \<in> set (cell_pairs (cl_cell c) ic jc')"
        unfolding cell_pairs_mem A B using True a b by blast
      then show ?thesis using mem by blast
    next
      case False
      then have ba: "b < a" using ab by simp
      have "(q, p) \<in> set (cell_pairs (cl_cell c) ic jc')"
        unfolding cell_pairs_mem A B using ba a b \<open>ic = jc'\<close>
        by (intro exI [of _ b] conjI exI [of _ a]) simp_all
      then show ?thesis using mem by blast
    qed
  qed
qed

lemma pair_list_complete:
  assumes ok: "cells_ok v c" and p: "p < coord_n v" and q: "q < coord_n v" and pq: "p \<noteq> q"
    and tp: "atom_cell c v p = (ix, iy, iz)" and tq: "atom_cell c v q = (i, j, k)"
    and adj: "\<bar>i - ix\<bar> \<le> 1" "\<bar>j - iy\<bar> \<le> 1" "\<bar>k - iz\<bar> \<le> 1"
  shows "(p, q) \<in> set (pair_list c) \<or> (q, p) \<in> set (pair_list c)"
proof (cases "i - ix + j - iy + k - iz \<ge> 0")
  case True
  with ok p q pq tp tq adj show ?thesis by (rule pair_list_forward)
next
  case False
  have adj': "\<bar>ix - i\<bar> \<le> 1" "\<bar>iy - j\<bar> \<le> 1" "\<bar>iz - k\<bar> \<le> 1" using adj by simp_all
  have f: "ix - i + iy - j + iz - k \<ge> 0" using False by simp
  have qp: "q \<noteq> p" using pq by simp
  have "(q, p) \<in> set (pair_list c) \<or> (p, q) \<in> set (pair_list c)"
    using ok q p qp tq tp adj' f by (rule pair_list_forward)
  then show ?thesis by blast
qed

subsection \<open>Atoms in contact lie in adjacent cells\<close>

lemma floor_adjacent:
  fixes u w :: real
  assumes "\<bar>u - w\<bar> < 1"
  shows "\<bar>\<lfloor>u\<rfloor> - \<lfloor>w\<rfloor>\<bar> \<le> 1"
  using assms by linarith

lemma axis_adjacent:
  fixes d :: real
  assumes "0 < d" "\<bar>u - w\<bar> < d" "0 \<le> (u - m) / d" "0 \<le> (w - m) / d"
  shows "\<bar>int_of_double ((w - m) / d) - int_of_double ((u - m) / d)\<bar> \<le> 1"
proof -
  have "(w - m) / d - (u - m) / d = (w - u) / d" by (simp add: diff_divide_distrib)
  then have "\<bar>(w - m) / d - (u - m) / d\<bar> = \<bar>u - w\<bar> / d"
    using assms(1) by (simp add: abs_minus_commute)
  also have "\<dots> < 1" using assms(1,2) by simp
  finally show ?thesis
    unfolding int_of_double_nonneg [OF assms(3)] int_of_double_nonneg [OF assms(4)]
    by (rule floor_adjacent)
qed

lemma square_less_abs:
  fixes x d :: real
  assumes "x * x < d * d" "0 \<le> d"
  shows "\<bar>x\<bar> < d"
proof (rule ccontr)
  assume "\<not> \<bar>x\<bar> < d"
  then have "d \<le> \<bar>x\<bar>" by simp
  then have "d * d \<le> \<bar>x\<bar> * \<bar>x\<bar>" using assms(2) by (intro mult_mono) simp_all
  then show False using assms(1) by simp
qed

lemma contact_adjacent:
  assumes g: "grid_ok v c" and p: "p < coord_n v" and q: "q < coord_n v"
    and con: "in_contact v r p q" and R: "\<bar>r ! p + r ! q\<bar> \<le> cl_d c"
    and tp: "atom_cell c v p = (ix, iy, iz)" and tq: "atom_cell c v q = (i, j, k)"
  shows "\<bar>i - ix\<bar> \<le> 1 \<and> \<bar>j - iy\<bar> \<le> 1 \<and> \<bar>k - iz\<bar> \<le> 1"
proof -
  define d where "d = cl_d c"
  have d: "0 < d" using g by (simp add: grid_ok_def d_def)
  have "(r ! p + r ! q) * (r ! p + r ! q) = \<bar>r ! p + r ! q\<bar> * \<bar>r ! p + r ! q\<bar>" by simp
  also have "\<dots> \<le> d * d" using R d unfolding d_def by (intro mult_mono) simp_all
  finally have lt: "dist2 v p q < d * d" using con unfolding in_contact_def by simp
  have x: "\<bar>coord_x v p - coord_x v q\<bar> < d"
    using axis_le_dist2(1) [of v q p] lt d
    by (intro square_less_abs) (simp_all add: abs_minus_commute algebra_simps)
  have y: "\<bar>coord_y v p - coord_y v q\<bar> < d"
    using axis_le_dist2(2) [of v q p] lt d
    by (intro square_less_abs) (simp_all add: abs_minus_commute algebra_simps)
  have z: "\<bar>coord_z v p - coord_z v q\<bar> < d"
    using axis_le_dist2(3) [of v q p] lt d
    by (intro square_less_abs) (simp_all add: abs_minus_commute algebra_simps)
  have np: "0 \<le> (coord_x v p - cl_x_min c) / d" "0 \<le> (coord_y v p - cl_y_min c) / d"
    "0 \<le> (coord_z v p - cl_z_min c) / d"
    using g p unfolding grid_ok_def d_def by simp_all
  have nq: "0 \<le> (coord_x v q - cl_x_min c) / d" "0 \<le> (coord_y v q - cl_y_min c) / d"
    "0 \<le> (coord_z v q - cl_z_min c) / d"
    using g q unfolding grid_ok_def d_def by simp_all
  show ?thesis
    using axis_adjacent [OF d x np(1) nq(1)] axis_adjacent [OF d y np(2) nq(2)]
      axis_adjacent [OF d z np(3) nq(3)] tp tq
    unfolding atom_cell_def d_def by simp
qed

subsection \<open>\<^verbatim>\<open>freesasa_nb_new\<close>\<close>

lemma max_array_ge: "0 \<le> max_array r n \<and> (\<forall>i < n. r ! i \<le> max_array r n)"
proof (induction n)
  case 0
  show ?case by (simp add: max_array_def)
next
  case (Suc n)
  have "max_array r (Suc n) = max (r ! n) (max_array r n)"
    by (simp add: max_array_def)
  then show ?case using Suc.IH by (auto simp: less_Suc_eq)
qed

definition adj_init :: "nat \<Rightarrow> freesasa_nb" where
  "adj_init n = \<lparr>adj_n = n, adj_nn = replicate n 0, adj_nb = replicate n [],
                adj_nb_xyd = replicate n [], adj_nb_xd = replicate n [],
                adj_nb_yd = replicate n [], adj_capacity = replicate n NB_CHUNK\<rparr>"

lemma freesasa_nb_new_Inr:
  assumes "freesasa_nb_new v r = Inr adj"
  shows "0 < coord_n v" and "0 < max_array r (coord_n v)"
  using assms unfolding freesasa_nb_new_def freesasa_nb_alloc_def Let_def
  by (auto split: if_splits sum.splits)

lemma freesasa_nb_new_ok:
  assumes "0 < coord_n v" "0 < max_array r (coord_n v)"
  shows "\<exists>adj c. freesasa_nb_new v r = Inr adj \<and> cells_ok v c \<and>
           cl_d c = 2 * max_array r (coord_n v) \<and>
           fold_err (\<lambda>p. nb_check_pair v r (fst p) (snd p)) (pair_list c) (adj_init (coord_n v)) = Inr adj"
proof -
  have d: "0 < 2 * max_array r (coord_n v)" using assms(2) by simp
  obtain c where c: "cell_list_new (2 * max_array r (coord_n v)) v = Inr c" "cells_ok v c"
    "cl_d c = 2 * max_array r (coord_n v)"
    using cell_list_new_ok [OF d assms(1)] by blast
  have "\<forall>p \<in> set (pair_list c). fst p \<noteq> snd p"
    using pair_list_sound [OF c(2)] by auto
  then obtain adj where adj:
    "fold_err (\<lambda>p. nb_check_pair v r (fst p) (snd p)) (pair_list c) (adj_init (coord_n v)) = Inr adj"
    using fold_pairs_Inr by blast
  have "freesasa_nb_new v r = Inr adj"
    unfolding freesasa_nb_new_def Let_def freesasa_nb_alloc_def
    using assms c(1) adj by (simp add: nb_fill_list_flat adj_init_def)
  then show ?thesis using c(2,3) adj by blast
qed

lemma sym_inv_init: "sym_inv (adj_init n)"
  unfolding sym_inv_def adj_shape_def adj_entries_def adj_init_def by simp

lemma freesasa_nb_new_sym:
  assumes "freesasa_nb_new v r = Inr adj"
  shows "sym_inv adj \<and> adj_n adj = coord_n v"
proof -
  note pos = freesasa_nb_new_Inr [OF assms]
  obtain adj' c where c: "freesasa_nb_new v r = Inr adj'" "cells_ok v c"
    "fold_err (\<lambda>p. nb_check_pair v r (fst p) (snd p)) (pair_list c) (adj_init (coord_n v)) = Inr adj'"
    using freesasa_nb_new_ok [OF pos] by blast
  have e: "adj' = adj" using c(1) assms by simp
  have r: "\<forall>p \<in> set (pair_list c). fst p < adj_n (adj_init (coord_n v)) \<and> snd p < adj_n (adj_init (coord_n v))"
    using pair_list_sound [OF c(2)] by (auto simp: adj_init_def)
  from fold_pairs_sym [OF c(3) sym_inv_init r] show ?thesis
    unfolding e by (simp add: adj_init_def)
qed

lemma freesasa_nb_new_contacts:
  assumes n: "0 < coord_n v" and pos: "\<forall>i < coord_n v. 0 < r ! i"
  shows "\<exists>adj. freesasa_nb_new v r = Inr adj \<and> length (adj_nb adj) = coord_n v \<and>
     (\<forall>i < coord_n v. \<forall>j < coord_n v. i \<noteq> j \<longrightarrow>
        (j \<in> set (adj_nb adj ! i) \<longleftrightarrow> in_contact v r i j))"
proof -
  have m: "0 < max_array r (coord_n v)"
    using max_array_ge [of r "coord_n v"] n pos by (meson less_le_trans)
  obtain adj c where c: "freesasa_nb_new v r = Inr adj" "cells_ok v c"
    "cl_d c = 2 * max_array r (coord_n v)"
    "fold_err (\<lambda>p. nb_check_pair v r (fst p) (snd p)) (pair_list c) (adj_init (coord_n v)) = Inr adj"
    using freesasa_nb_new_ok [OF n m] by blast
  have g: "grid_ok v c" using c(2) by (simp add: cells_ok_def)
  have l0: "length (adj_nb (adj_init (coord_n v))) = coord_n v" by (simp add: adj_init_def)
  have mem: "length (adj_nb adj) = coord_n v \<and>
     set (adj_nb adj ! i) = {j. ((i, j) \<in> set (pair_list c) \<or> (j, i) \<in> set (pair_list c)) \<and> in_contact v r i j}"
    if "i < coord_n v" for i
    using fold_pairs_mem [OF c(4) l0 that] that by (simp add: adj_init_def)
  have "j \<in> set (adj_nb adj ! i) \<longleftrightarrow> in_contact v r i j"
    if i: "i < coord_n v" and j: "j < coord_n v" and ij: "i \<noteq> j" for i j
  proof
    assume "j \<in> set (adj_nb adj ! i)"
    then show "in_contact v r i j" using mem [OF i] by simp
  next
    assume con: "in_contact v r i j"
    have "r ! i \<le> max_array r (coord_n v)" "r ! j \<le> max_array r (coord_n v)"
      using max_array_ge [of r "coord_n v"] i j by simp_all
    moreover have "0 < r ! i" "0 < r ! j" using pos i j by simp_all
    ultimately have R: "\<bar>r ! i + r ! j\<bar> \<le> cl_d c" unfolding c(3) by linarith
    obtain ix iy iz where ti: "atom_cell c v i = (ix, iy, iz)" by (cases "atom_cell c v i") auto
    obtain jx jy jz where tj: "atom_cell c v j = (jx, jy, jz)" by (cases "atom_cell c v j") auto
    have a: "\<bar>jx - ix\<bar> \<le> 1" "\<bar>jy - iy\<bar> \<le> 1" "\<bar>jz - iz\<bar> \<le> 1"
      using contact_adjacent [OF g i j con R ti tj] by simp_all
    have "(i, j) \<in> set (pair_list c) \<or> (j, i) \<in> set (pair_list c)"
      using c(2) i j ij ti tj a by (rule pair_list_complete)
    then show "j \<in> set (adj_nb adj ! i)" using mem [OF i] con by simp
  qed
  then show ?thesis using c(1) mem [of 0] n by blast
qed

end
